theory Spec2Isabelle
  imports Main
begin

unbundle bit_operations_syntax

section \<open>Values of the runtime\<close>

text \<open>
  The module \<^verbatim>\<open>lib/hashing/sha-infinity.js\<close> works on JavaScript strings and on
  \<^verbatim>\<open>Buffer\<close>s. A string is represented here by the bytes of its UTF-8 encoding
  (the bytes that \<^verbatim>\<open>hash.update(string)\<close> feeds to the digest), a buffer by its raw
  bytes; both are lists of \<^typ>\<open>char\<close>, which is a byte. Hex digests and the
  versioned-hash format are plain ASCII, where a byte is a character. String
  concatenation is \<open>@\<close>, which is exact for strings without unpaired surrogates.

  A default parameter value (\<^verbatim>\<open>depth = 1\<close>, \<^verbatim>\<open>previousHash = null\<close>) is the argument
  of a call that omits it; the functions below take every argument. Two fields are
  renamed: \<^verbatim>\<open>proof\<close> of a proof object is \<open>proofSteps\<close> and \<^verbatim>\<open>length\<close> of a chain is
  \<open>chain_length\<close>.
\<close>

datatype input = Str string | Buf string

text \<open>
  The depth parameter is documented as the number of hash iterations. It is an
  integer, or the value \<^verbatim>\<open>Infinity\<close> that the source tests for explicitly.
\<close>

datatype depth = Fin int | Infinity

text \<open>
  The digest primitive is not part of the repository: it is
  \<^verbatim>\<open>crypto.createHash('sha256')\<close> of the runtime. Every function below takes it as
  its first argument, a function from the bytes fed to the hash to the
  hex-encoded digest.
\<close>

type_synonym digest = "string \<Rightarrow> string"

definition hexchars :: "char set" where
  "hexchars = set ''0123456789abcdef''"

text \<open>What the runtime guarantees of a hex-encoded SHA-256 digest: 64 lowercase hex characters.\<close>

definition hex_digest :: "digest \<Rightarrow> bool" where
  "hex_digest dg = (\<forall>bs. length (dg bs) = 64 \<and> set (dg bs) \<subseteq> hexchars)"

subsection \<open>\<^verbatim>\<open>Buffer.prototype.toString()\<close>\<close>

text \<open>
  \<^verbatim>\<open>buf.toString()\<close> decodes the buffer as UTF-8; every maximal ill-formed
  subsequence becomes one U+FFFD. In the representation of strings by their UTF-8
  bytes, the result is the buffer with each such subsequence replaced by the three
  bytes EF BF BD.
\<close>

definition replacement :: string where
  "replacement = [CHR 0xEF, CHR 0xBF, CHR 0xBD]"

definition byte_in :: "nat \<Rightarrow> nat \<Rightarrow> char \<Rightarrow> bool" where
  "byte_in lo hi c = (lo \<le> of_char c \<and> of_char c \<le> hi)"

fun utf8_toString :: "string \<Rightarrow> string" where
  "utf8_toString [] = []"
| "utf8_toString (b # bs) =
     (if byte_in 0x00 0x7F b then b # utf8_toString bs
      else if byte_in 0xC2 0xDF b then
        (case bs of
           [] \<Rightarrow> replacement
         | c1 # r1 \<Rightarrow>
             if byte_in 0x80 0xBF c1 then b # c1 # utf8_toString r1
             else replacement @ utf8_toString (c1 # r1))
      else if byte_in 0xE0 0xEF b then
        (case bs of
           [] \<Rightarrow> replacement
         | c1 # r1 \<Rightarrow>
             if byte_in (if b = CHR 0xE0 then 0xA0 else 0x80)
                        (if b = CHR 0xED then 0x9F else 0xBF) c1 then
               (case r1 of
                  [] \<Rightarrow> replacement
                | c2 # r2 \<Rightarrow>
                    if byte_in 0x80 0xBF c2 then b # c1 # c2 # utf8_toString r2
                    else replacement @ utf8_toString (c2 # r2))
             else replacement @ utf8_toString (c1 # r1))
      else if byte_in 0xF0 0xF4 b then
        (case bs of
           [] \<Rightarrow> replacement
         | c1 # r1 \<Rightarrow>
             if byte_in (if b = CHR 0xF0 then 0x90 else 0x80)
                        (if b = CHR 0xF4 then 0x8F else 0xBF) c1 then
               (case r1 of
                  [] \<Rightarrow> replacement
                | c2 # r2 \<Rightarrow>
                    if byte_in 0x80 0xBF c2 then
                      (case r2 of
                         [] \<Rightarrow> replacement
                       | c3 # r3 \<Rightarrow>
                           if byte_in 0x80 0xBF c3 then b # c1 # c2 # c3 # utf8_toString r3
                           else replacement @ utf8_toString (c3 # r3))
                    else replacement @ utf8_toString (c2 # r2))
             else replacement @ utf8_toString (c1 # r1))
      else replacement @ utf8_toString bs)"

section \<open>Configuration\<close>

record config =
  baseAlgorithm :: string
  defaultDepth :: int
  maxDepth :: int
  encoding :: string
  separator :: string
  version :: string

definition SHA_INFINITY_CONFIG :: config where
  "SHA_INFINITY_CONFIG =
     \<lparr> baseAlgorithm = ''sha256'', defaultDepth = 1, maxDepth = 1000000,
       encoding = ''hex'', separator = '':'', version = ''1.0.0'' \<rparr>"

section \<open>Core hashing\<close>

text \<open>
  \<^verbatim>\<open>sha256(input)\<close>: \<^verbatim>\<open>update\<close> takes the UTF-8 bytes of a string and the raw
  bytes of a buffer.
\<close>

definition sha256 :: "digest \<Rightarrow> input \<Rightarrow> string" where
  "sha256 dg inp = dg (case inp of Str s \<Rightarrow> s | Buf b \<Rightarrow> b)"

text \<open>The loop \<^verbatim>\<open>for (let i = 0; i < depth; i++) hash = sha256(hash)\<close>.\<close>

function shaLoop :: "digest \<Rightarrow> int \<Rightarrow> int \<Rightarrow> string \<Rightarrow> string" where
  "shaLoop dg i d hash = (if i < d then shaLoop dg (i + 1) d (sha256 dg (Str hash)) else hash)"
  by pat_completeness auto
termination
  by (relation "measure (\<lambda>(dg, i, d, hash). nat (d - i))") auto

declare shaLoop.simps [simp del]

definition shaInfinity :: "digest \<Rightarrow> input \<Rightarrow> depth \<Rightarrow> string" where
  "shaInfinity dg inp dep =
     (let d0 = (case dep of Infinity \<Rightarrow> maxDepth SHA_INFINITY_CONFIG | Fin n \<Rightarrow> n);
          d1 = (if d0 < 1 then 1 else d0);
          d2 = (if d1 > maxDepth SHA_INFINITY_CONFIG then maxDepth SHA_INFINITY_CONFIG else d1);
          hash = (case inp of Str s \<Rightarrow> s | Buf b \<Rightarrow> utf8_toString b)
      in shaLoop dg 0 d2 hash)"

section \<open>Array and string primitives of the language\<close>

text \<open>Reading an array at an index: \<^verbatim>\<open>undefined\<close> (\<open>None\<close>) outside the array.\<close>

definition js_nth :: "'a list \<Rightarrow> int \<Rightarrow> 'a option" where
  "js_nth xs i = (if 0 \<le> i \<and> i < int (length xs) then Some (xs ! nat i) else None)"

text \<open>The remainder operator \<^verbatim>\<open>%\<close> truncates: the result has the sign of the dividend.\<close>

definition js_rem :: "int \<Rightarrow> int \<Rightarrow> int" where
  "js_rem a b = sgn a * (\<bar>a\<bar> mod \<bar>b\<bar>)"

text \<open>\<^verbatim>\<open>a || b\<close> on a string or \<^verbatim>\<open>undefined\<close>: the empty string is falsy, as \<^verbatim>\<open>undefined\<close> is.\<close>

definition js_or :: "string option \<Rightarrow> string \<Rightarrow> string" where
  "js_or a b = (case a of None \<Rightarrow> b | Some s \<Rightarrow> if s = [] then b else s)"

text \<open>The string that \<^verbatim>\<open>+\<close> concatenates for a string or \<^verbatim>\<open>undefined\<close>.\<close>

definition js_str :: "string option \<Rightarrow> string" where
  "js_str a = (case a of None \<Rightarrow> ''undefined'' | Some s \<Rightarrow> s)"

section \<open>Merkle tree\<close>

record merkle_tree =
  root :: string
  leaves :: "string list"
  levels :: "string list list"
  itemCount :: "nat option"

text \<open>
  The inner loop
  \<^verbatim>\<open>for (let i = 0; i < leaves.length; i += 2) { ... nextLevel.push(sha256(left + right)) }\<close>.
\<close>

function buildLevel :: "digest \<Rightarrow> string list \<Rightarrow> nat \<Rightarrow> string list \<Rightarrow> string list" where
  "buildLevel dg lvs i nextLevel =
     (if i < length lvs then
        (let left = lvs ! i;
             right = js_or (js_nth lvs (int i + 1)) left
         in buildLevel dg lvs (i + 2) (nextLevel @ [sha256 dg (Str (left @ right))]))
      else nextLevel)"
  by pat_completeness auto
termination
  by (relation "measure (\<lambda>(dg, lvs, i, nextLevel). length lvs - i)") auto

declare buildLevel.simps [simp del]

lemma length_buildLevel:
  "length (buildLevel dg lvs i acc) = length acc + (length lvs - i + 1) div 2"
proof (induction dg lvs i acc rule: buildLevel.induct)
  case (1 dg lvs i acc)
  show ?case
  proof (cases "i < length lvs")
    case True
    have "length (buildLevel dg lvs i acc) =
            length (buildLevel dg lvs (i + 2)
              (acc @ [sha256 dg (Str (lvs ! i @ js_or (js_nth lvs (int i + 1)) (lvs ! i)))]))"
      using True by (subst buildLevel.simps) (simp add: Let_def)
    also have "\<dots> = length acc + 1 + (length lvs - (i + 2) + 1) div 2"
      using True "1.IH" by simp
    also have "\<dots> = length acc + (length lvs - i + 1) div 2"
      using True by arith
    finally show ?thesis .
  next
    case False
    then show ?thesis by (subst buildLevel.simps) simp
  qed
qed

text \<open>The outer loop \<^verbatim>\<open>while (leaves.length > 1) { ...; leaves = nextLevel; levels.push(leaves.slice()) }\<close>.\<close>

function treeLoop :: "digest \<Rightarrow> string list \<Rightarrow> string list list \<Rightarrow> string list \<times> string list list" where
  "treeLoop dg lvs lvls =
     (if length lvs > 1 then
        (let nextLevel = buildLevel dg lvs 0 []
         in treeLoop dg nextLevel (lvls @ [nextLevel]))
      else (lvs, lvls))"
  by pat_completeness auto
termination
  by (relation "measure (\<lambda>(dg, lvs, lvls). length lvs)") (auto simp: length_buildLevel)

declare treeLoop.simps [simp del]

definition merkleTree :: "digest \<Rightarrow> input list \<Rightarrow> depth \<Rightarrow> merkle_tree" where
  "merkleTree dg items dep =
     (if items = [] then
        \<lparr> root = sha256 dg (Str []), leaves = [], levels = [], itemCount = None \<rparr>
      else
        (let leaves0 = map (\<lambda>item. shaInfinity dg item dep) items;
             (lvs, lvls) = treeLoop dg leaves0 [leaves0]
         in \<lparr> root = lvs ! 0, leaves = lvls ! 0, levels = lvls,
              itemCount = Some (length items) \<rparr>))"

subsection \<open>Notions used to state the shape of the tree\<close>

text \<open>The digest that one round of the inner loop pushes for the pair starting at index \<open>k\<close>.\<close>

definition node :: "digest \<Rightarrow> string list \<Rightarrow> nat \<Rightarrow> string" where
  "node dg lvs k = sha256 dg (Str (lvs ! k @ js_or (js_nth lvs (int k + 1)) (lvs ! k)))"

text \<open>Every level but the first is built from the level below, which has more than one entry.\<close>

definition levels_ok :: "digest \<Rightarrow> string list list \<Rightarrow> bool" where
  "levels_ok dg lvls =
     (\<forall>k. Suc k < length lvls \<longrightarrow>
        1 < length (lvls ! k) \<and> lvls ! Suc k = buildLevel dg (lvls ! k) 0 [])"

section \<open>Merkle proofs\<close>

record proof_step =
  hash :: "string option"
  position :: string

record merkle_proof =
  root :: string
  leaf :: "string option"
  proofSteps :: "proof_step list"
  index :: int

text \<open>The loop \<^verbatim>\<open>for (let level = 0; level < tree.levels.length - 1; level++)\<close> of \<^verbatim>\<open>merkleProof\<close>.\<close>

function proofLoop :: "string list list \<Rightarrow> nat \<Rightarrow> int \<Rightarrow> proof_step list \<Rightarrow> proof_step list" where
  "proofLoop lvls level idx prf =
     (if int level < int (length lvls) - 1 then
        (let levelHashes = lvls ! level;
             isRight = (js_rem idx 2 = 1);
             siblingIdx = (if isRight then idx - 1 else idx + 1);
             prf' = (if siblingIdx < int (length levelHashes)
                     then prf @ [\<lparr> hash = js_nth levelHashes siblingIdx,
                                   position = (if isRight then ''left'' else ''right'') \<rparr>]
                     else prf)
         in proofLoop lvls (level + 1) (idx div 2) prf')
      else prf)"
  by pat_completeness auto
termination
  by (relation "measure (\<lambda>(lvls, level, idx, prf). length lvls - level)") auto

declare proofLoop.simps [simp del]

definition merkleProof :: "digest \<Rightarrow> input list \<Rightarrow> int \<Rightarrow> depth \<Rightarrow> merkle_proof" where
  "merkleProof dg items idx dep =
     (let tree = merkleTree dg items dep
      in \<lparr> root = merkle_tree.root tree,
           leaf = js_nth (leaves tree) idx,
           proofSteps = proofLoop (levels tree) 0 idx [],
           index = idx \<rparr>)"

text \<open>The loop \<^verbatim>\<open>for (const step of proof)\<close> of \<^verbatim>\<open>verifyMerkleProof\<close>.\<close>

fun verifyLoop :: "digest \<Rightarrow> string \<Rightarrow> proof_step list \<Rightarrow> string" where
  "verifyLoop dg h [] = h"
| "verifyLoop dg h (step # rest) =
     verifyLoop dg
       (if position step = ''left'' then sha256 dg (Str (js_str (hash step) @ h))
        else sha256 dg (Str (h @ js_str (hash step))))
       rest"

definition verifyMerkleProof :: "digest \<Rightarrow> string \<Rightarrow> proof_step list \<Rightarrow> string \<Rightarrow> bool" where
  "verifyMerkleProof dg lf prf rt = (verifyLoop dg lf prf = rt)"

section \<open>Versioned hashes\<close>

text \<open>
  The string of a number in a template literal: decimal digits, with a sign for a
  negative integer, and \<^verbatim>\<open>Infinity\<close>. (Integers of 22 digits and more print in
  exponent notation in the language; no depth below is that large.)
\<close>

definition digit_char :: "nat \<Rightarrow> char" where
  "digit_char n = ''0123456789'' ! (n mod 10)"

function show_nat :: "nat \<Rightarrow> string" where
  "show_nat n = (if n < 10 then [digit_char n] else show_nat (n div 10) @ [digit_char n])"
  by pat_completeness auto
termination
  by (relation "measure id") auto

declare show_nat.simps [simp del]

definition number_string :: "depth \<Rightarrow> string" where
  "number_string dep =
     (case dep of
        Infinity \<Rightarrow> ''Infinity''
      | Fin n \<Rightarrow> if n < 0 then CHR ''-'' # show_nat (nat (- n)) else show_nat (nat n))"

definition versionedHash :: "digest \<Rightarrow> input \<Rightarrow> depth \<Rightarrow> string" where
  "versionedHash dg inp dep =
     (let h = shaInfinity dg inp dep
      in ''sha-inf-v'' @ config.version SHA_INFINITY_CONFIG @ ''-d'' @ number_string dep @ ''-'' @ h)"

subsection \<open>The regular expression of \<^verbatim>\<open>parseVersionedHash\<close>\<close>

text \<open>
  The pattern \<^verbatim>\<open>/^sha-inf-v([\d.]+)-d(\d+)-([a-f0-9]+)$/\<close> is a sequence of literals
  and of captured, greedy \<^verbatim>\<open>+\<close> repetitions of a character class, anchored at both
  ends. A repetition takes the longest run first and gives characters back one at
  a time while the rest of the pattern fails.
\<close>

datatype rx_item = Lit string | CapPlus "char \<Rightarrow> bool"

fun first_some :: "'a option list \<Rightarrow> 'a option" where
  "first_some [] = None"
| "first_some (None # xs) = first_some xs"
| "first_some (Some x # xs) = Some x"

fun rx_match :: "rx_item list \<Rightarrow> string \<Rightarrow> string list option" where
  "rx_match [] s = (if s = [] then Some [] else None)"
| "rx_match (Lit l # r) s =
     (if take (length l) s = l then rx_match r (drop (length l) s) else None)"
| "rx_match (CapPlus P # r) s =
     first_some
       (map (\<lambda>k. map_option ((#) (take k s)) (rx_match r (drop k s)))
            (rev [1 ..< Suc (length (takeWhile P s))]))"

definition is_digit :: "char \<Rightarrow> bool" where
  "is_digit c = (c \<in> set ''0123456789'')"

definition is_hex :: "char \<Rightarrow> bool" where
  "is_hex c = (c \<in> set ''abcdef0123456789'')"

definition versioned_rx :: "rx_item list" where
  "versioned_rx =
     [Lit ''sha-inf-v'', CapPlus (\<lambda>c. is_digit c \<or> c = CHR ''.''),
      Lit ''-d'', CapPlus is_digit, Lit ''-'', CapPlus is_hex]"

text \<open>The match array of \<^verbatim>\<open>str.match(re)\<close>: the whole match, then the captures.\<close>

definition js_match :: "rx_item list \<Rightarrow> string \<Rightarrow> string list option" where
  "js_match rx s = map_option ((#) s) (rx_match rx s)"

text \<open>
  \<^verbatim>\<open>parseInt(digits, 10)\<close> on a string of decimal digits, which is all the second
  capture can be. The result is a number of the language, a double: the integer
  that the digits denote, rounded to the nearest double, to the even significand
  on a tie, and \<^verbatim>\<open>Infinity\<close> from \<open>2\<^sup>1\<^sup>0\<^sup>2\<^sup>4\<close> on. An integer below \<open>2\<^sup>5\<^sup>3\<close> is a
  double itself.
\<close>

definition decimal_value :: "string \<Rightarrow> int" where
  "decimal_value s = foldl (\<lambda>a c. a * 10 + (int (of_char c) - 48)) 0 s"

function bit_length :: "int \<Rightarrow> nat" where
  "bit_length n = (if n \<le> 0 then 0 else Suc (bit_length (n div 2)))"
  by pat_completeness auto
termination
  by (relation "measure nat") auto

declare bit_length.simps [simp del]

definition round_double :: "int \<Rightarrow> depth" where
  "round_double n =
     (if n < 2 ^ 53 then Fin n
      else
        (let e = bit_length n - 53;
             q = n div 2 ^ e;
             r = n mod 2 ^ e;
             q' = (if 2 * r > 2 ^ e \<or> (2 * r = 2 ^ e \<and> odd q) then q + 1 else q)
         in if q' * 2 ^ e \<ge> 2 ^ 1024 then Infinity else Fin (q' * 2 ^ e)))"

definition parseInt10 :: "string \<Rightarrow> depth" where
  "parseInt10 s = round_double (decimal_value s)"

datatype error = Error string

record versioned =
  version :: string
  depth :: depth
  hash :: string

definition parseVersionedHash :: "string \<Rightarrow> error + versioned" where
  "parseVersionedHash versionedHashStr =
     (case js_match versioned_rx versionedHashStr of
        None \<Rightarrow> Inl (Error ''Invalid versioned hash format'')
      | Some m \<Rightarrow> Inr \<lparr> version = m ! 1, depth = parseInt10 (m ! 2), hash = m ! 3 \<rparr>)"

text \<open>
  The pattern read as a grammar: the prefix, a non-empty run of digits and dots,
  \<^verbatim>\<open>-d\<close>, a non-empty run of digits, \<^verbatim>\<open>-\<close>, and a non-empty run of the characters
  \<^verbatim>\<open>a-f0-9\<close> up to the end of the string.
\<close>

definition versioned_grammar :: "string \<Rightarrow> string \<Rightarrow> string \<Rightarrow> string \<Rightarrow> bool" where
  "versioned_grammar s v d h =
     (s = ''sha-inf-v'' @ v @ ''-d'' @ d @ ''-'' @ h
      \<and> v \<noteq> [] \<and> list_all (\<lambda>c. is_digit c \<or> c = CHR ''.'') v
      \<and> d \<noteq> [] \<and> list_all is_digit d
      \<and> h \<noteq> [] \<and> list_all is_hex h)"

section \<open>Hash chains\<close>

record chain_link =
  item :: input
  itemHash :: string
  chainHash :: string

record hash_chain =
  previousHash :: "string option"
  chain :: "chain_link list"
  finalHash :: string
  chain_length :: nat

text \<open>The loop \<^verbatim>\<open>for (const item of items)\<close> of \<^verbatim>\<open>hashChain\<close>.\<close>

fun chainLoop :: "digest \<Rightarrow> string \<Rightarrow> input list \<Rightarrow> chain_link list \<Rightarrow> string \<times> chain_link list" where
  "chainLoop dg currentHash [] ch = (currentHash, ch)"
| "chainLoop dg currentHash (it # rest) ch =
     (let ih = sha256 dg it;
          currentHash' = sha256 dg (Str (currentHash @ ih))
      in chainLoop dg currentHash' rest
           (ch @ [\<lparr> item = it, itemHash = ih, chainHash = currentHash' \<rparr>]))"

text \<open>
  \<^verbatim>\<open>previousHash\<close> is \<^verbatim>\<open>null\<close> (\<open>None\<close>) when absent;
  \<^verbatim>\<open>previousHash || sha256('genesis')\<close> takes the genesis digest for \<^verbatim>\<open>null\<close> and
  for the empty string.
\<close>

definition hashChain :: "digest \<Rightarrow> input list \<Rightarrow> string option \<Rightarrow> hash_chain" where
  "hashChain dg items prev =
     (let (currentHash, ch) = chainLoop dg (js_or prev (sha256 dg (Str ''genesis''))) items []
      in \<lparr> previousHash = prev, chain = ch, finalHash = currentHash,
           chain_length = length ch \<rparr>)"

section \<open>Digests to compute with\<close>

subsection \<open>Hexadecimal digits\<close>

definition hexdigit :: "int \<Rightarrow> char" where
  "hexdigit n = ''0123456789abcdef'' ! nat (n mod 16)"

definition hexval :: "char \<Rightarrow> int" where
  "hexval c =
     (if byte_in 48 57 c then of_char c - 48
      else if byte_in 97 102 c then of_char c - 87
      else of_char c mod 16)"

fun to_hex :: "nat \<Rightarrow> int \<Rightarrow> string" where
  "to_hex 0 n = []"
| "to_hex (Suc k) n = to_hex k (n div 16) @ [hexdigit n]"

definition from_hex :: "string \<Rightarrow> int" where
  "from_hex s = foldl (\<lambda>a c. a * 16 + hexval c) 0 s"

subsection \<open>SHA-256\<close>

text \<open>
  The digest of the runtime, after FIPS 180-4, on 32-bit words as integers with
  the wrap-around written out, and hex-encoded as \<^verbatim>\<open>digest('hex')\<close> does. The
  functions of the module take the digest as an argument and their properties
  are proved for every digest of this output format; this one evaluates the
  module at concrete inputs.
\<close>

definition add32 :: "int \<Rightarrow> int \<Rightarrow> int" where
  "add32 a b = (a + b) mod 4294967296"

definition rotr :: "nat \<Rightarrow> int \<Rightarrow> int" where
  "rotr n x = x div 2 ^ n + (x mod 2 ^ n) * 2 ^ (32 - n)"

definition shr :: "nat \<Rightarrow> int \<Rightarrow> int" where
  "shr n x = x div 2 ^ n"

definition not32 :: "int \<Rightarrow> int" where
  "not32 x = 4294967295 - x"

text \<open>
  The round constants (the first 32 bits of the fractional parts of the cube roots
  of the first 64 primes) and the initial hash value (of the square roots of the
  first 8 primes), in hexadecimal.
\<close>

definition K256 :: "int list" where
  "K256 = map from_hex
     [
      ''428a2f98'', ''71374491'', ''b5c0fbcf'', ''e9b5dba5'', ''3956c25b'', ''59f111f1'',
      ''923f82a4'', ''ab1c5ed5'', ''d807aa98'', ''12835b01'', ''243185be'', ''550c7dc3'',
      ''72be5d74'', ''80deb1fe'', ''9bdc06a7'', ''c19bf174'', ''e49b69c1'', ''efbe4786'',
      ''0fc19dc6'', ''240ca1cc'', ''2de92c6f'', ''4a7484aa'', ''5cb0a9dc'', ''76f988da'',
      ''983e5152'', ''a831c66d'', ''b00327c8'', ''bf597fc7'', ''c6e00bf3'', ''d5a79147'',
      ''06ca6351'', ''14292967'', ''27b70a85'', ''2e1b2138'', ''4d2c6dfc'', ''53380d13'',
      ''650a7354'', ''766a0abb'', ''81c2c92e'', ''92722c85'', ''a2bfe8a1'', ''a81a664b'',
      ''c24b8b70'', ''c76c51a3'', ''d192e819'', ''d6990624'', ''f40e3585'', ''106aa070'',
      ''19a4c116'', ''1e376c08'', ''2748774c'', ''34b0bcb5'', ''391c0cb3'', ''4ed8aa4a'',
      ''5b9cca4f'', ''682e6ff3'', ''748f82ee'', ''78a5636f'', ''84c87814'', ''8cc70208'',
      ''90befffa'', ''a4506ceb'', ''bef9a3f7'', ''c67178f2'']"

definition H256 :: "int list" where
  "H256 = map from_hex
     [
      ''6a09e667'', ''bb67ae85'', ''3c6ef372'', ''a54ff53a'',
      ''510e527f'', ''9b05688c'', ''1f83d9ab'', ''5be0cd19'']"

definition Sigma0 :: "int \<Rightarrow> int" where "Sigma0 x = rotr 2 x XOR rotr 13 x XOR rotr 22 x"
definition Sigma1 :: "int \<Rightarrow> int" where "Sigma1 x = rotr 6 x XOR rotr 11 x XOR rotr 25 x"
definition sigma0 :: "int \<Rightarrow> int" where "sigma0 x = rotr 7 x XOR rotr 18 x XOR shr 3 x"
definition sigma1 :: "int \<Rightarrow> int" where "sigma1 x = rotr 17 x XOR rotr 19 x XOR shr 10 x"
definition Ch :: "int \<Rightarrow> int \<Rightarrow> int \<Rightarrow> int" where "Ch x y z = (x AND y) XOR (not32 x AND z)"
definition Maj :: "int \<Rightarrow> int \<Rightarrow> int \<Rightarrow> int" where "Maj x y z = (x AND y) XOR (x AND z) XOR (y AND z)"

text \<open>
  The message schedule, newest word first: in \<open>ws\<close> the word \<open>W\<^sub>t\<^sub>-\<^sub>2\<close> is at index 1,
  \<open>W\<^sub>t\<^sub>-\<^sub>7\<close> at 6, \<open>W\<^sub>t\<^sub>-\<^sub>1\<^sub>5\<close> at 14 and \<open>W\<^sub>t\<^sub>-\<^sub>1\<^sub>6\<close> at 15.
\<close>

fun schedule :: "nat \<Rightarrow> int list \<Rightarrow> int list" where
  "schedule 0 ws = ws"
| "schedule (Suc n) ws =
     schedule n (add32 (add32 (sigma1 (ws ! 1)) (ws ! 6)) (add32 (sigma0 (ws ! 14)) (ws ! 15)) # ws)"

text \<open>One round on the working variables \<open>a\<close> to \<open>h\<close>, with the constant and the schedule word.\<close>

fun sha_round :: "int list \<Rightarrow> int \<times> int \<Rightarrow> int list" where
  "sha_round [a, b, c, d, e, f, g, h] (k, w) =
     (let t1 = add32 (add32 (add32 h (Sigma1 e)) (add32 (Ch e f g) k)) w;
          t2 = add32 (Sigma0 a) (Maj a b c)
      in [add32 t1 t2, a, b, c, add32 d t1, e, f, g])"
| "sha_round st kw = st"

definition compress :: "int list \<Rightarrow> int list \<Rightarrow> int list" where
  "compress st blk =
     map2 add32 st (foldl sha_round st (zip K256 (rev (schedule 48 (rev blk)))))"

text \<open>
  Padding: the byte \<open>80\<close>, zero bytes up to 56 modulo 64, and the length in bits
  as 8 bytes, big-endian; then big-endian words, in blocks of 16.
\<close>

definition pad :: "int list \<Rightarrow> int list" where
  "pad bs =
     (let l = int (length bs)
      in bs @ [128] @ replicate (nat ((55 - l) mod 64)) 0
            @ map (\<lambda>i. (l * 8) div 256 ^ (7 - i) mod 256) [0 ..< 8])"

fun be_words :: "int list \<Rightarrow> int list" where
  "be_words (a # b # c # d # r) = (((a * 256 + b) * 256 + c) * 256 + d) # be_words r"
| "be_words r = []"

fun blocks :: "nat \<Rightarrow> int list \<Rightarrow> int list list" where
  "blocks 0 ws = []"
| "blocks (Suc n) ws = take 16 ws # blocks n (drop 16 ws)"

definition sha256_hex :: digest where
  "sha256_hex s =
     (let ws = be_words (pad (map (\<lambda>c. int (of_char c)) s))
      in concat (map (to_hex 8) (foldl compress H256 (blocks (length ws div 16) ws))))"

subsection \<open>A counting digest\<close>

text \<open>
  A second function with the output format of a digest, for the one place where
  a million applications have to be reasoned about and cannot be evaluated: it
  reads its input as a hexadecimal number, adds one and prints the low 256 bits
  as 64 lowercase hex digits.
\<close>

definition counting_digest :: digest where
  "counting_digest bs = to_hex 64 (from_hex bs + 1)"

section \<open>The digests\<close>

lemma length_to_hex: "length (to_hex k n) = k"
  by (induction k arbitrary: n) auto

lemma hexdigit_in_hexchars: "hexdigit n \<in> hexchars"
proof -
  have "nat (n mod 16) < length ''0123456789abcdef''" by simp
  then have "''0123456789abcdef'' ! nat (n mod 16) \<in> set ''0123456789abcdef''"
    by (rule nth_mem)
  then show ?thesis by (simp only: hexdigit_def hexchars_def)
qed

lemma set_to_hex: "set (to_hex k n) \<subseteq> hexchars"
  by (induction k arbitrary: n) (auto simp: hexdigit_in_hexchars)

lemma hex_digest_counting: "hex_digest counting_digest"
  using set_to_hex by (auto simp: hex_digest_def counting_digest_def length_to_hex)

lemma hexval_hexdigit_lt: "m < 16 \<Longrightarrow> hexval (''0123456789abcdef'' ! m) = int m"
proof -
  assume "m < 16"
  then consider "m = 0" | "m = 1" | "m = 2" | "m = 3" | "m = 4" | "m = 5" | "m = 6" | "m = 7"
    | "m = 8" | "m = 9" | "m = 10" | "m = 11" | "m = 12" | "m = 13" | "m = 14" | "m = 15"
    by atomize_elim arith
  then show ?thesis
    by cases (simp_all add: hexval_def byte_in_def)
qed

lemma hexval_hexdigit: "hexval (hexdigit n) = n mod 16"
proof -
  have "nat (n mod 16) < 16" by simp
  then have "hexval (hexdigit n) = int (nat (n mod 16))"
    unfolding hexdigit_def by (rule hexval_hexdigit_lt)
  then show ?thesis by simp
qed

lemma from_hex_snoc: "from_hex (s @ [c]) = from_hex s * 16 + hexval c"
  by (simp add: from_hex_def)

lemma from_hex_to_hex: "from_hex (to_hex k n) = n mod 16 ^ k"
proof (induction k arbitrary: n)
  case 0
  then show ?case by (simp add: from_hex_def)
next
  case (Suc k)
  have "from_hex (to_hex (Suc k) n) = (n div 16) mod 16 ^ k * 16 + n mod 16"
    by (simp add: from_hex_snoc Suc hexval_hexdigit)
  also have "\<dots> = n mod 16 ^ Suc k"
    by (simp add: zmod_zmult2_eq)
  finally show ?case .
qed

lemma counting_digest_no_fixpoint: "counting_digest y \<noteq> y"
proof
  assume eq: "counting_digest y = y"
  define n where "n = from_hex y"
  have "from_hex (counting_digest y) = (n + 1) mod 16 ^ 64"
    by (simp add: counting_digest_def from_hex_to_hex n_def)
  with eq have n: "n = (n + 1) mod 16 ^ 64" by (simp add: n_def)
  have "0 \<le> (n + 1) mod 16 ^ 64" and "(n + 1) mod 16 ^ 64 < 16 ^ 64"
    by simp_all
  with n have ge: "0 \<le> n" and lt: "n < 16 ^ 64" by simp_all
  show False
  proof (cases "n + 1 < 16 ^ 64")
    case True
    with ge have "(n + 1) mod 16 ^ 64 = n + 1" by simp
    with n show False by simp
  next
    case False
    with lt have "n + 1 = 16 ^ 64" by simp
    with n have "n = 0" by simp
    with \<open>n + 1 = 16 ^ 64\<close> show False by simp
  qed
qed

text \<open>The constants as numbers, which is how they are evaluated.\<close>

lemma K256_values [code]:
  "K256 =
     [
      1116352408, 1899447441, 3049323471, 3921009573, 961987163, 1508970993,
      2453635748, 2870763221, 3624381080, 310598401, 607225278, 1426881987,
      1925078388, 2162078206, 2614888103, 3248222580, 3835390401, 4022224774,
      264347078, 604807628, 770255983, 1249150122, 1555081692, 1996064986,
      2554220882, 2821834349, 2952996808, 3210313671, 3336571891, 3584528711,
      113926993, 338241895, 666307205, 773529912, 1294757372, 1396182291,
      1695183700, 1986661051, 2177026350, 2456956037, 2730485921, 2820302411,
      3259730800, 3345764771, 3516065817, 3600352804, 4094571909, 275423344,
      430227734, 506948616, 659060556, 883997877, 958139571, 1322822218,
      1537002063, 1747873779, 1955562222, 2024104815, 2227730452, 2361852424,
      2428436474, 2756734187, 3204031479, 3329325298]"
  by (simp add: K256_def from_hex_def hexval_def byte_in_def)

lemma H256_values [code]:
  "H256 =
     [
      1779033703, 3144134277, 1013904242, 2773480762,
      1359893119, 2600822924, 528734635, 1541459225]"
  by (simp add: H256_def from_hex_def hexval_def byte_in_def)

text \<open>Two test vectors of the standard.\<close>

lemma sha256_hex_abc:
  "sha256_hex ''abc'' = ''ba7816bf8f01cfea414140de5dae2223b00361a396177a9cb410ff61f20015ad''"
  by code_simp

lemma sha256_hex_empty:
  "sha256_hex [] = ''e3b0c44298fc1c149afbf4c8996fb92427ae41e4649b934ca495991b7852b855''"
  by code_simp

lemma length_sha_round:
  assumes "length st = 8"
  shows "length (sha_round st kw) = 8"
proof -
  from assms obtain a b c d e f g h where st: "st = [a, b, c, d, e, f, g, h]"
    by (auto simp: numeral_eq_Suc length_Suc_conv)
  show ?thesis
    unfolding st by (cases kw) (simp add: Let_def)
qed

lemma length_foldl_sha_round:
  "length st = 8 \<Longrightarrow> length (foldl sha_round st kws) = 8"
  by (induction kws arbitrary: st) (simp_all add: length_sha_round)

lemma length_compress:
  "length st = 8 \<Longrightarrow> length (compress st blk) = 8"
  by (simp add: compress_def length_foldl_sha_round)

lemma length_foldl_compress:
  "length st = 8 \<Longrightarrow> length (foldl compress st bl) = 8"
  by (induction bl arbitrary: st) (simp_all add: length_compress)

lemma length_concat_to_hex: "length (concat (map (to_hex k) ws)) = k * length ws"
  by (induction ws) (simp_all add: length_to_hex)

lemma set_concat_to_hex: "set (concat (map (to_hex k) ws)) \<subseteq> hexchars"
  using set_to_hex by auto

lemma hex_digest_sha256_hex: "hex_digest sha256_hex"
proof -
  have l: "length (foldl compress H256 bl) = 8" for bl
    by (rule length_foldl_compress) (simp add: H256_values)
  have "length (sha256_hex bs) = 64 \<and> set (sha256_hex bs) \<subseteq> hexchars" for bs
    unfolding sha256_hex_def Let_def
    using set_concat_to_hex [of 8] by (simp only: length_concat_to_hex l) simp
  then show ?thesis
    unfolding hex_digest_def by blast
qed

section \<open>Iterated hashing\<close>

text \<open>The loop applies \<^verbatim>\<open>sha256\<close> once for every \<open>i\<close> from the start value up to the depth.\<close>

lemma shaLoop_funpow:
  "shaLoop dg i d h = ((\<lambda>s. sha256 dg (Str s)) ^^ nat (d - i)) h"
proof (induction dg i d h rule: shaLoop.induct)
  case (1 dg i d h)
  define f where "f = (\<lambda>s. sha256 dg (Str s))"
  show ?case
  proof (cases "i < d")
    case True
    then have n: "nat (d - i) = Suc (nat (d - (i + 1)))" by simp
    have "shaLoop dg i d h = shaLoop dg (i + 1) d (f h)"
      using True by (subst shaLoop.simps) (simp add: f_def)
    also have "\<dots> = (f ^^ nat (d - (i + 1))) (f h)"
      using True "1.IH" by (simp add: f_def)
    also have "\<dots> = (f ^^ nat (d - i)) h"
      unfolding n by (simp only: funpow_Suc_right o_apply)
    finally show ?thesis by (simp only: f_def)
  next
    case False
    then show ?thesis by (subst shaLoop.simps) simp
  qed
qed

lemma shaInfinity_Fin:
  "shaInfinity dg x (Fin d) =
     ((\<lambda>s. sha256 dg (Str s)) ^^ nat (min (max d 1) (maxDepth SHA_INFINITY_CONFIG)))
       (case x of Str s \<Rightarrow> s | Buf b \<Rightarrow> utf8_toString b)"
  by (simp add: shaInfinity_def shaLoop_funpow Let_def SHA_INFINITY_CONFIG_def min_def max_def)

lemma shaInfinity_Infinity:
  "shaInfinity dg x Infinity =
     ((\<lambda>s. sha256 dg (Str s)) ^^ nat (maxDepth SHA_INFINITY_CONFIG))
       (case x of Str s \<Rightarrow> s | Buf b \<Rightarrow> utf8_toString b)"
  by (simp add: shaInfinity_def shaLoop_funpow Let_def SHA_INFINITY_CONFIG_def)


lemma utf8_toString_ascii: "list_all (byte_in 0x00 0x7F) b \<Longrightarrow> utf8_toString b = b"
  by (induction b) simp_all

lemma shaInfinity_ascii_buffer:
  "list_all (byte_in 0x00 0x7F) b \<Longrightarrow> shaInfinity dg (Buf b) (Fin 1) = sha256 dg (Buf b)"
  by (simp add: shaInfinity_Fin SHA_INFINITY_CONFIG_def sha256_def utf8_toString_ascii)

lemma sha256_hex_FF:
  "sha256_hex [CHR 0xFF] = ''a8100ae6aa1940d0b663bb31cd466142ebbdbd5187131b92d93818987832eb89''"
  by code_simp

lemma sha256_hex_FFFD:
  "sha256_hex [CHR 0xEF, CHR 0xBF, CHR 0xBD] =
     ''83d544ccc223c057d2bf80d3f2a32982c32c3c0db8e2674820da5064783fb097''"
  by code_simp

text \<open>
  Claim C5. At depth 1 the iterated hash of a string is one application of
  \<^verbatim>\<open>sha256\<close>. A buffer is first decoded to a string by \<^verbatim>\<open>toString()\<close>, so its
  iterated hash at depth 1 is the digest of the decoded string and not of its raw
  bytes: for the one-byte buffer \<open>FF\<close>, \<^verbatim>\<open>shaInfinity\<close> digests the three bytes
  \<open>EF BF BD\<close> where \<^verbatim>\<open>sha256\<close> digests the byte \<open>FF\<close>, and with SHA-256 the two
  results differ.
\<close>

theorem shaInfinity_depth_one:
  "shaInfinity dg (Str s) (Fin 1) = sha256 dg (Str s)
   \<and> shaInfinity dg (Buf b) (Fin 1) = sha256 dg (Str (utf8_toString b))
   \<and> shaInfinity dg (Buf [CHR 0xFF]) (Fin 1) = dg [CHR 0xEF, CHR 0xBF, CHR 0xBD]
   \<and> sha256 dg (Buf [CHR 0xFF]) = dg [CHR 0xFF]
   \<and> shaInfinity sha256_hex (Buf [CHR 0xFF]) (Fin 1) =
        ''83d544ccc223c057d2bf80d3f2a32982c32c3c0db8e2674820da5064783fb097''
   \<and> sha256 sha256_hex (Buf [CHR 0xFF]) =
        ''a8100ae6aa1940d0b663bb31cd466142ebbdbd5187131b92d93818987832eb89''"
proof -
  have g: "shaInfinity dg (Str s) (Fin 1) = sha256 dg (Str s)
     \<and> shaInfinity dg (Buf b) (Fin 1) = sha256 dg (Str (utf8_toString b))
     \<and> shaInfinity dg (Buf [CHR 0xFF]) (Fin 1) = dg [CHR 0xEF, CHR 0xBF, CHR 0xBD]
     \<and> sha256 dg (Buf [CHR 0xFF]) = dg [CHR 0xFF]" for dg
    by (simp add: shaInfinity_Fin SHA_INFINITY_CONFIG_def sha256_def byte_in_def replacement_def)
  from g [of dg] g [of sha256_hex] show ?thesis
    by (simp only: sha256_hex_FF sha256_hex_FFFD)
qed

text \<open>
  Claim C7. Iterated hashing composes additively as long as the sum of the two
  depths does not exceed the ceiling: for depths \<open>a, b \<ge> 1\<close> with
  \<open>a + b \<le> maxDepth\<close>, hashing at depth \<open>a + b\<close> is hashing at depth \<open>a\<close> and
  feeding the digest back in at depth \<open>b\<close>.
\<close>

theorem shaInfinity_compose:
  assumes "1 \<le> a" and "1 \<le> b" and "a + b \<le> maxDepth SHA_INFINITY_CONFIG"
  shows "shaInfinity dg x (Fin (a + b)) = shaInfinity dg (Str (shaInfinity dg x (Fin a))) (Fin b)"
proof -
  have "nat (a + b) = nat b + nat a" using assms by simp
  then show ?thesis
    using assms by (simp add: shaInfinity_Fin min_def max_def funpow_add)
qed

theorem shaInfinity_compose_witness:
  "(1::int) \<le> 1 \<and> (1::int) \<le> 2 \<and> (1::int) + 2 \<le> maxDepth SHA_INFINITY_CONFIG
   \<and> shaInfinity sha256_hex (Str ''a'') (Fin (1 + 2)) =
       shaInfinity sha256_hex (Str (shaInfinity sha256_hex (Str ''a'') (Fin 1))) (Fin 2)"
  using shaInfinity_compose [of 1 2 sha256_hex "Str ''a''"]
  by (simp add: SHA_INFINITY_CONFIG_def)


text \<open>
  Beyond the ceiling the sum is clamped and the two sides differ: with the counting
  digest, depth \<open>1000000 + 1\<close> gives the digest of depth \<open>1000000\<close>, and one more
  application changes it.
\<close>

theorem shaInfinity_compose_counterexample:
  "shaInfinity counting_digest (Str ''a'') (Fin (1000000 + 1)) \<noteq>
   shaInfinity counting_digest (Str (shaInfinity counting_digest (Str ''a'') (Fin 1000000))) (Fin 1)"
proof -
  define y where "y = shaInfinity counting_digest (Str ''a'') (Fin 1000000)"
  have l: "shaInfinity counting_digest (Str ''a'') (Fin (1000000 + 1)) = y"
    by (simp add: y_def shaInfinity_Fin SHA_INFINITY_CONFIG_def)
  have r: "shaInfinity counting_digest (Str y) (Fin 1) = counting_digest y"
    by (simp add: shaInfinity_Fin SHA_INFINITY_CONFIG_def sha256_def)
  show ?thesis
    unfolding y_def [symmetric] l r using counting_digest_no_fixpoint [of y] by simp
qed


text \<open>
  Claim C8. The depth is normalized and never rejected: a depth below 1 gives the
  hash of depth 1, a depth above \<open>maxDepth\<close> gives the hash of depth \<open>maxDepth\<close>, and
  \<^verbatim>\<open>Infinity\<close> gives the hash of depth \<open>maxDepth\<close>, which is exactly 1000000
  applications of the digest.
\<close>

theorem shaInfinity_normalized:
  "(d < 1 \<longrightarrow> shaInfinity dg x (Fin d) = shaInfinity dg x (Fin 1))
   \<and> (maxDepth SHA_INFINITY_CONFIG < d \<longrightarrow>
        shaInfinity dg x (Fin d) = shaInfinity dg x (Fin (maxDepth SHA_INFINITY_CONFIG)))
   \<and> shaInfinity dg x Infinity = shaInfinity dg x (Fin (maxDepth SHA_INFINITY_CONFIG))
   \<and> shaInfinity dg x Infinity =
        ((\<lambda>s. sha256 dg (Str s)) ^^ 1000000) (case x of Str s \<Rightarrow> s | Buf b \<Rightarrow> utf8_toString b)"
  by (simp add: shaInfinity_Fin shaInfinity_Infinity SHA_INFINITY_CONFIG_def min_def max_def)

theorem shaInfinity_normalized_witness:
  "(0::int) < 1 \<and> maxDepth SHA_INFINITY_CONFIG < 10000000
   \<and> shaInfinity sha256_hex (Str ''a'') (Fin 0) = shaInfinity sha256_hex (Str ''a'') (Fin 1)
   \<and> shaInfinity sha256_hex (Str ''a'') (Fin 10000000) =
       shaInfinity sha256_hex (Str ''a'') (Fin (maxDepth SHA_INFINITY_CONFIG))"
  using shaInfinity_normalized [of 0 sha256_hex "Str ''a''"]
        shaInfinity_normalized [of 10000000 sha256_hex "Str ''a''"]
  by (simp add: SHA_INFINITY_CONFIG_def)

section \<open>Shape of the Merkle tree\<close>

lemma buildLevel_closed:
  "buildLevel dg lvs i acc =
     acc @ map (\<lambda>j. node dg lvs (i + 2 * j)) [0 ..< (length lvs - i + 1) div 2]"
proof (induction dg lvs i acc rule: buildLevel.induct)
  case (1 dg lvs i acc)
  show ?case
  proof (cases "i < length lvs")
    case True
    then have m: "(length lvs - i + 1) div 2 = Suc ((length lvs - (i + 2) + 1) div 2)"
      by arith
    have "buildLevel dg lvs i acc = buildLevel dg lvs (i + 2) (acc @ [node dg lvs i])"
      using True by (subst buildLevel.simps) (simp add: Let_def node_def)
    also have "\<dots> = (acc @ [node dg lvs i]) @
        map (\<lambda>j. node dg lvs (i + 2 + 2 * j)) [0 ..< (length lvs - (i + 2) + 1) div 2]"
      using True "1.IH" [OF True refl refl] by (simp add: node_def)
    also have "\<dots> = acc @ map (\<lambda>j. node dg lvs (i + 2 * j)) [0 ..< (length lvs - i + 1) div 2]"
      unfolding m by (simp add: map_upt_Suc del: upt_Suc)
    finally show ?thesis .
  next
    case False
    then show ?thesis by (subst buildLevel.simps) simp
  qed
qed

lemma levels_ok_snoc:
  assumes ok: "levels_ok dg lvls" and ne: "lvls \<noteq> []" and big: "1 < length (last lvls)"
  shows "levels_ok dg (lvls @ [buildLevel dg (last lvls) 0 []])"
  unfolding levels_ok_def
proof (intro allI impI)
  fix k
  assume k: "Suc k < length (lvls @ [buildLevel dg (last lvls) 0 []])"
  show "1 < length ((lvls @ [buildLevel dg (last lvls) 0 []]) ! k) \<and>
        (lvls @ [buildLevel dg (last lvls) 0 []]) ! Suc k =
          buildLevel dg ((lvls @ [buildLevel dg (last lvls) 0 []]) ! k) 0 []"
  proof (cases "Suc k < length lvls")
    case True
    with ok show ?thesis by (simp add: levels_ok_def nth_append)
  next
    case False
    with k have kk: "Suc k = length lvls" by simp
    then have "k = length lvls - 1" by simp
    then have "lvls ! k = last lvls" using ne by (simp add: last_conv_nth)
    with kk big show ?thesis by (simp add: nth_append)
  qed
qed

lemma treeLoop_inv:
  assumes "lvls \<noteq> []" and "last lvls = lvs" and "levels_ok dg lvls"
  shows "snd (treeLoop dg lvs lvls) \<noteq> []
         \<and> last (snd (treeLoop dg lvs lvls)) = fst (treeLoop dg lvs lvls)
         \<and> levels_ok dg (snd (treeLoop dg lvs lvls))
         \<and> length (fst (treeLoop dg lvs lvls)) \<le> 1
         \<and> (lvs \<noteq> [] \<longrightarrow> length (fst (treeLoop dg lvs lvls)) = 1)
         \<and> take (length lvls) (snd (treeLoop dg lvs lvls)) = lvls"
  using assms
proof (induction dg lvs lvls rule: treeLoop.induct)
  case (1 dg lvs lvls)
  show ?case
  proof (cases "1 < length lvs")
    case True
    define nxt where "nxt = buildLevel dg lvs 0 []"
    have step: "treeLoop dg lvs lvls = treeLoop dg nxt (lvls @ [nxt])"
      using True by (subst treeLoop.simps) (simp add: Let_def nxt_def)
    have ok: "levels_ok dg (lvls @ [nxt])"
      unfolding nxt_def using levels_ok_snoc [of dg lvls] "1.prems" True by simp
    have nxt_ne: "nxt \<noteq> []"
      using True by (auto simp: nxt_def length_buildLevel dest!: arg_cong [where f = length])
    have IH: "snd (treeLoop dg nxt (lvls @ [nxt])) \<noteq> []
         \<and> last (snd (treeLoop dg nxt (lvls @ [nxt]))) = fst (treeLoop dg nxt (lvls @ [nxt]))
         \<and> levels_ok dg (snd (treeLoop dg nxt (lvls @ [nxt])))
         \<and> length (fst (treeLoop dg nxt (lvls @ [nxt]))) \<le> 1
         \<and> (nxt \<noteq> [] \<longrightarrow> length (fst (treeLoop dg nxt (lvls @ [nxt]))) = 1)
         \<and> take (length (lvls @ [nxt])) (snd (treeLoop dg nxt (lvls @ [nxt]))) = lvls @ [nxt]"
      using "1.IH" [OF True nxt_def] ok by simp
    then have "take (length lvls) (take (length (lvls @ [nxt])) (snd (treeLoop dg nxt (lvls @ [nxt]))))
        = take (length lvls) (lvls @ [nxt])"
      by simp
    then have pre: "take (length lvls) (snd (treeLoop dg nxt (lvls @ [nxt]))) = lvls"
      by (simp add: min_def)
    show ?thesis
      unfolding step using IH nxt_ne pre by simp
  next
    case False
    then have "treeLoop dg lvs lvls = (lvs, lvls)"
      by (subst treeLoop.simps) simp
    with False "1.prems" show ?thesis
      by (cases lvs) auto
  qed
qed

lemma merkleTree_nonempty:
  assumes "items \<noteq> []"
  shows "merkleTree dg items dep =
     \<lparr> merkle_tree.root =
         fst (treeLoop dg (map (\<lambda>item. shaInfinity dg item dep) items)
                [map (\<lambda>item. shaInfinity dg item dep) items]) ! 0,
       leaves =
         snd (treeLoop dg (map (\<lambda>item. shaInfinity dg item dep) items)
                [map (\<lambda>item. shaInfinity dg item dep) items]) ! 0,
       levels =
         snd (treeLoop dg (map (\<lambda>item. shaInfinity dg item dep) items)
                [map (\<lambda>item. shaInfinity dg item dep) items]),
       itemCount = Some (length items) \<rparr>"
  using assms by (simp add: merkleTree_def Let_def split_beta)

lemma merkleTree_structure:
  assumes "items \<noteq> []"
  shows "levels (merkleTree dg items dep) \<noteq> []
     \<and> levels (merkleTree dg items dep) ! 0 = map (\<lambda>item. shaInfinity dg item dep) items
     \<and> leaves (merkleTree dg items dep) = map (\<lambda>item. shaInfinity dg item dep) items
     \<and> levels_ok dg (levels (merkleTree dg items dep))
     \<and> last (levels (merkleTree dg items dep)) = [merkle_tree.root (merkleTree dg items dep)]"
proof -
  define leaves0 where "leaves0 = map (\<lambda>item. shaInfinity dg item dep) items"
  define r where "r = treeLoop dg leaves0 [leaves0]"
  have ne: "leaves0 \<noteq> []" using assms by (simp add: leaves0_def)
  have ok0: "levels_ok dg [leaves0]" by (simp add: levels_ok_def)
  have inv: "snd r \<noteq> [] \<and> last (snd r) = fst r \<and> levels_ok dg (snd r)
      \<and> length (fst r) = 1 \<and> take (length [leaves0]) (snd r) = [leaves0]"
    unfolding r_def using treeLoop_inv [of "[leaves0]" leaves0 dg] ok0 ne by simp
  then have "take 1 (snd r) = [leaves0]" by simp
  then have z: "snd r ! 0 = leaves0"
    using inv by (cases "snd r") auto
  have one: "fst r = [fst r ! 0]"
    using inv by (cases "fst r") auto
  have t: "merkleTree dg items dep =
     \<lparr> merkle_tree.root = fst r ! 0, leaves = snd r ! 0, levels = snd r, itemCount = Some (length items) \<rparr>"
    unfolding r_def leaves0_def using merkleTree_nonempty [OF assms] by simp
  show ?thesis
    unfolding t using inv z one by (simp add: leaves0_def)
qed

lemma hex_digest_nonempty: "hex_digest dg \<Longrightarrow> dg bs \<noteq> []"
  by (auto simp: hex_digest_def dest!: spec [where x = bs])

lemma shaInfinity_is_digest: "\<exists>bs. shaInfinity dg x dep = dg bs"
proof -
  define f where "f = (\<lambda>s. sha256 dg (Str s))"
  define d where "d = (case dep of Infinity \<Rightarrow> maxDepth SHA_INFINITY_CONFIG | Fin n \<Rightarrow> n)"
  define n where "n = nat (if (if d < 1 then 1 else d) > maxDepth SHA_INFINITY_CONFIG
                            then maxDepth SHA_INFINITY_CONFIG else (if d < 1 then 1 else d))"
  define s where "s = (case x of Str s \<Rightarrow> s | Buf b \<Rightarrow> utf8_toString b)"
  have "0 < n" by (simp add: n_def SHA_INFINITY_CONFIG_def)
  then obtain m where m: "n = Suc m" by (cases n) auto
  have "shaInfinity dg x dep = (f ^^ n) s"
    by (simp add: shaInfinity_def shaLoop_funpow Let_def f_def d_def n_def s_def)
  also have "\<dots> = dg ((f ^^ m) s)"
    unfolding m by (simp add: f_def sha256_def)
  finally show ?thesis by blast
qed

lemma node_nonempty_children:
  assumes "\<forall>x \<in> set lvs. x \<noteq> []" and "k < length lvs"
  shows "node dg lvs k =
     sha256 dg (Str (lvs ! k @ (if k + 1 < length lvs then lvs ! (k + 1) else lvs ! k)))"
proof (cases "k + 1 < length lvs")
  case True
  then have "lvs ! (k + 1) \<in> set lvs" by (intro nth_mem)
  with assms have "lvs ! (k + 1) \<noteq> []" by blast
  moreover have "nat (int k + 1) = k + 1" by simp
  ultimately show ?thesis
    using True by (simp add: node_def js_or_def js_nth_def)
next
  case False
  then show ?thesis by (simp add: node_def js_or_def js_nth_def)
qed

lemma levels_entries_digests:
  assumes ok: "levels_ok dg lvls"
    and z: "\<forall>x \<in> set (lvls ! 0). \<exists>bs. x = dg bs"
    and k: "k < length lvls" and x: "x \<in> set (lvls ! k)"
  shows "\<exists>bs. x = dg bs"
proof (cases k)
  case 0
  with z x show ?thesis by simp
next
  case (Suc j)
  with ok k have "lvls ! k = buildLevel dg (lvls ! j) 0 []"
    by (simp add: levels_ok_def)
  with x have "x \<in> set (map (\<lambda>i. node dg (lvls ! j) (0 + 2 * i))
                          [0 ..< (length (lvls ! j) - 0 + 1) div 2])"
    by (simp only: buildLevel_closed append_Nil)
  then obtain i where "x = node dg (lvls ! j) (0 + 2 * i)" by auto
  then show ?thesis by (auto simp: node_def sha256_def)
qed

text \<open>
  Claim C4. For a non-empty item sequence, level 0 of the tree is the sequence of
  the iterated hashes of the items; every further level has half as many entries
  as the level below, rounded up; its entry \<open>j\<close> is the plain digest of the entries
  \<open>2j\<close> and \<open>2j + 1\<close> below, concatenated, where an odd last entry is paired with
  itself; and the last level is the root alone. (The digest returns 64 hex
  characters, so an entry is never the empty string that \<^verbatim>\<open>||\<close> would skip.)
\<close>

theorem merkleTree_levels:
  assumes hd: "hex_digest dg" and ne: "items \<noteq> []"
  shows "let t = merkleTree dg items dep in
     levels t \<noteq> []
     \<and> levels t ! 0 = map (\<lambda>item. shaInfinity dg item dep) items
     \<and> leaves t = levels t ! 0
     \<and> (\<forall>k. Suc k < length (levels t) \<longrightarrow>
            1 < length (levels t ! k)
            \<and> length (levels t ! Suc k) = (length (levels t ! k) + 1) div 2
            \<and> (\<forall>j < length (levels t ! Suc k).
                  levels t ! Suc k ! j =
                    sha256 dg (Str (levels t ! k ! (2 * j) @
                      (if 2 * j + 1 < length (levels t ! k)
                       then levels t ! k ! (2 * j + 1) else levels t ! k ! (2 * j))))))
     \<and> last (levels t) = [merkle_tree.root t]"
proof -
  define t where "t = merkleTree dg items dep"
  note s = merkleTree_structure [OF ne, of dg dep, folded t_def]
  have ok: "levels_ok dg (levels t)" using s by simp
  have z: "\<forall>x \<in> set (levels t ! 0). \<exists>bs. x = dg bs"
    using s shaInfinity_is_digest [of dg _ dep] by auto
  have lvl: "1 < length (levels t ! k)
       \<and> length (levels t ! Suc k) = (length (levels t ! k) + 1) div 2
       \<and> (\<forall>j < length (levels t ! Suc k).
             levels t ! Suc k ! j =
               sha256 dg (Str (levels t ! k ! (2 * j) @
                 (if 2 * j + 1 < length (levels t ! k)
                  then levels t ! k ! (2 * j + 1) else levels t ! k ! (2 * j)))))"
    if k: "Suc k < length (levels t)" for k
  proof -
    define L where "L = levels t ! k"
    have big: "1 < length L" and nxt: "levels t ! Suc k = buildLevel dg L 0 []"
      using ok k by (simp_all add: levels_ok_def L_def)
    have nonempty: "\<forall>x \<in> set L. x \<noteq> []"
    proof
      fix x assume "x \<in> set L"
      then obtain bs where "x = dg bs"
        using levels_entries_digests [OF ok z, of k x] k by (auto simp: L_def)
      then show "x \<noteq> []" using hex_digest_nonempty [OF hd] by simp
    qed
    have len: "length (levels t ! Suc k) = (length L + 1) div 2"
      unfolding nxt by (simp add: length_buildLevel)
    have ent: "levels t ! Suc k ! j =
        sha256 dg (Str (L ! (2 * j) @ (if 2 * j + 1 < length L then L ! (2 * j + 1) else L ! (2 * j))))"
      if j: "j < length (levels t ! Suc k)" for j
    proof -
      from j len have jj: "j < (length L + 1) div 2" by simp
      then have j2: "2 * j < length L" by arith
      have "levels t ! Suc k ! j = node dg L (2 * j)"
        unfolding nxt using jj by (simp add: buildLevel_closed)
      then show ?thesis
        using node_nonempty_children [OF nonempty j2, of dg] by simp
    qed
    show ?thesis using big len ent by (simp add: L_def)
  qed
  have "levels t \<noteq> []
     \<and> levels t ! 0 = map (\<lambda>item. shaInfinity dg item dep) items
     \<and> leaves t = levels t ! 0
     \<and> last (levels t) = [merkle_tree.root t]"
    using s by simp
  with lvl show ?thesis
    unfolding t_def [symmetric] Let_def by blast
qed

subsection \<open>The tree of three items\<close>

lemma shaInfinity_one_Str: "shaInfinity dg (Str s) (Fin 1) = dg s"
  by (simp add: shaInfinity_Fin SHA_INFINITY_CONFIG_def sha256_def)

lemma buildLevel_two:
  "y \<noteq> [] \<Longrightarrow> buildLevel dg [x, y] 0 [] = [dg (x @ y)]"
  by (simp add: buildLevel_closed node_def js_or_def js_nth_def sha256_def)

lemma buildLevel_three:
  "y \<noteq> [] \<Longrightarrow> buildLevel dg [x, y, z] 0 [] = [dg (x @ y), dg (z @ z)]"
  by (simp add: buildLevel_closed node_def js_or_def js_nth_def sha256_def upt_rec)

lemma treeLoop_three:
  assumes "y \<noteq> []" and "dg (z @ z) \<noteq> []"
  shows "treeLoop dg [x, y, z] [[x, y, z]] =
      ([dg (dg (x @ y) @ dg (z @ z))],
       [[x, y, z], [dg (x @ y), dg (z @ z)], [dg (dg (x @ y) @ dg (z @ z))]])"
proof -
  have "treeLoop dg [x, y, z] [[x, y, z]] =
      treeLoop dg [dg (x @ y), dg (z @ z)] [[x, y, z], [dg (x @ y), dg (z @ z)]]"
    using assms by (subst treeLoop.simps) (simp add: buildLevel_three Let_def)
  also have "\<dots> = treeLoop dg [dg (dg (x @ y) @ dg (z @ z))]
      [[x, y, z], [dg (x @ y), dg (z @ z)], [dg (dg (x @ y) @ dg (z @ z))]]"
    using assms by (subst treeLoop.simps) (simp add: buildLevel_two Let_def)
  also have "\<dots> = ([dg (dg (x @ y) @ dg (z @ z))],
       [[x, y, z], [dg (x @ y), dg (z @ z)], [dg (dg (x @ y) @ dg (z @ z))]])"
    by (subst treeLoop.simps) simp
  finally show ?thesis .
qed

lemma merkleTree_three:
  assumes hd: "hex_digest dg"
  shows "merkleTree dg [Str a, Str b, Str c] (Fin 1) =
     \<lparr> merkle_tree.root = dg (dg (dg a @ dg b) @ dg (dg c @ dg c)),
       leaves = [dg a, dg b, dg c],
       levels = [[dg a, dg b, dg c], [dg (dg a @ dg b), dg (dg c @ dg c)],
                 [dg (dg (dg a @ dg b) @ dg (dg c @ dg c))]],
       itemCount = Some 3 \<rparr>"
  using hex_digest_nonempty [OF hd]
  by (simp add: merkleTree_def shaInfinity_one_Str Let_def treeLoop_three)

text \<open>The tree of the items \<^verbatim>\<open>['a', 'b', 'c']\<close> at depth 1, with SHA-256.\<close>

lemma sha256_hex_a: "sha256_hex ''a'' = ''ca978112ca1bbdcafac231b39a23dc4da786eff8147c4e72b9807785afee48bb''"
  by code_simp

lemma sha256_hex_b: "sha256_hex ''b'' = ''3e23e8160039594a33894f6564e1b1348bbd7a0088d42c4acb73eeaed59c009d''"
  by code_simp

lemma sha256_hex_c: "sha256_hex ''c'' = ''2e7d2c03a9507ae265ecf5b5356885a53393a2029d241394997265a1a25aefc6''"
  by code_simp

lemma sha256_hex_ab:
  "sha256_hex (''ca978112ca1bbdcafac231b39a23dc4da786eff8147c4e72b9807785afee48bb'' @
               ''3e23e8160039594a33894f6564e1b1348bbd7a0088d42c4acb73eeaed59c009d'') =
     ''62af5c3cb8da3e4f25061e829ebeea5c7513c54949115b1acc225930a90154da''"
  by code_simp

lemma sha256_hex_cc:
  "sha256_hex (''2e7d2c03a9507ae265ecf5b5356885a53393a2029d241394997265a1a25aefc6'' @
               ''2e7d2c03a9507ae265ecf5b5356885a53393a2029d241394997265a1a25aefc6'') =
     ''d50c873877f38fcbc56dbe836b9d979912efcb587ed8eea919372d403b5c2bd4''"
  by code_simp

lemma sha256_hex_root:
  "sha256_hex (''62af5c3cb8da3e4f25061e829ebeea5c7513c54949115b1acc225930a90154da'' @
               ''d50c873877f38fcbc56dbe836b9d979912efcb587ed8eea919372d403b5c2bd4'') =
     ''0bdf27bf7ec894ca7cadfe491ec1a3ece840f117989e8c5e9bd7086467bf6c38''"
  by code_simp

lemma sha256_tree:
  "merkleTree sha256_hex [Str ''a'', Str ''b'', Str ''c''] (Fin 1) =
     \<lparr> merkle_tree.root = ''0bdf27bf7ec894ca7cadfe491ec1a3ece840f117989e8c5e9bd7086467bf6c38'',
       leaves =
         [''ca978112ca1bbdcafac231b39a23dc4da786eff8147c4e72b9807785afee48bb'',
          ''3e23e8160039594a33894f6564e1b1348bbd7a0088d42c4acb73eeaed59c009d'',
          ''2e7d2c03a9507ae265ecf5b5356885a53393a2029d241394997265a1a25aefc6''],
       levels =
         [[''ca978112ca1bbdcafac231b39a23dc4da786eff8147c4e72b9807785afee48bb'',
           ''3e23e8160039594a33894f6564e1b1348bbd7a0088d42c4acb73eeaed59c009d'',
           ''2e7d2c03a9507ae265ecf5b5356885a53393a2029d241394997265a1a25aefc6''],
          [''62af5c3cb8da3e4f25061e829ebeea5c7513c54949115b1acc225930a90154da'',
           ''d50c873877f38fcbc56dbe836b9d979912efcb587ed8eea919372d403b5c2bd4''],
          [''0bdf27bf7ec894ca7cadfe491ec1a3ece840f117989e8c5e9bd7086467bf6c38'']],
       itemCount = Some 3 \<rparr>"
  by (simp only: merkleTree_three [OF hex_digest_sha256_hex] sha256_hex_a sha256_hex_b
      sha256_hex_c sha256_hex_ab sha256_hex_cc sha256_hex_root)

theorem merkleTree_levels_witness:
  "hex_digest sha256_hex \<and> [Str ''a'', Str ''b'', Str ''c''] \<noteq> []
   \<and> length (levels (merkleTree sha256_hex [Str ''a'', Str ''b'', Str ''c''] (Fin 1))) = 3
   \<and> length (levels (merkleTree sha256_hex [Str ''a'', Str ''b'', Str ''c''] (Fin 1)) ! 1) = 2
   \<and> levels (merkleTree sha256_hex [Str ''a'', Str ''b'', Str ''c''] (Fin 1)) ! 1 ! 1 =
        sha256 sha256_hex
          (Str (levels (merkleTree sha256_hex [Str ''a'', Str ''b'', Str ''c''] (Fin 1)) ! 0 ! 2 @
                levels (merkleTree sha256_hex [Str ''a'', Str ''b'', Str ''c''] (Fin 1)) ! 0 ! 2))
   \<and> last (levels (merkleTree sha256_hex [Str ''a'', Str ''b'', Str ''c''] (Fin 1))) =
        [merkle_tree.root (merkleTree sha256_hex [Str ''a'', Str ''b'', Str ''c''] (Fin 1))]"
proof -
  define t where "t = merkleTree sha256_hex [Str ''a'', Str ''b'', Str ''c''] (Fin 1)"
  have ne: "[Str ''a'', Str ''b'', Str ''c''] \<noteq> []" by simp
  have len: "length (levels t) = 3" and len0: "length (levels t ! 0) = 3"
    by (simp_all add: t_def sha256_tree)
  note th = merkleTree_levels [OF hex_digest_sha256_hex ne, of "Fin 1", unfolded Let_def, folded t_def]
  from th have last: "last (levels t) = [merkle_tree.root t]" by blast
  from th have "Suc 0 < length (levels t) \<longrightarrow>
      1 < length (levels t ! 0)
      \<and> length (levels t ! Suc 0) = (length (levels t ! 0) + 1) div 2
      \<and> (\<forall>j < length (levels t ! Suc 0).
            levels t ! Suc 0 ! j =
              sha256 sha256_hex (Str (levels t ! 0 ! (2 * j) @
                (if 2 * j + 1 < length (levels t ! 0)
                 then levels t ! 0 ! (2 * j + 1) else levels t ! 0 ! (2 * j)))))"
    by blast
  with len have l1: "length (levels t ! Suc 0) = (length (levels t ! 0) + 1) div 2"
    and ent: "\<forall>j < length (levels t ! Suc 0).
            levels t ! Suc 0 ! j =
              sha256 sha256_hex (Str (levels t ! 0 ! (2 * j) @
                (if 2 * j + 1 < length (levels t ! 0)
                 then levels t ! 0 ! (2 * j + 1) else levels t ! 0 ! (2 * j))))"
    by simp_all
  from l1 len0 have l1': "length (levels t ! 1) = 2" by simp
  from ent l1' have "levels t ! Suc 0 ! 1 =
      sha256 sha256_hex (Str (levels t ! 0 ! (2 * 1) @
        (if 2 * 1 + 1 < length (levels t ! 0)
         then levels t ! 0 ! (2 * 1 + 1) else levels t ! 0 ! (2 * 1))))"
    by simp
  with len0 have e1: "levels t ! 1 ! 1 = sha256 sha256_hex (Str (levels t ! 0 ! 2 @ levels t ! 0 ! 2))"
    by simp
  from hex_digest_sha256_hex ne len l1' e1 last show ?thesis
    unfolding t_def by blast
qed

section \<open>Generated proofs\<close>

lemma merkleTree_leaves: "leaves (merkleTree dg items dep) = map (\<lambda>item. shaInfinity dg item dep) items"
proof (cases "items = []")
  case True
  then show ?thesis by (simp add: merkleTree_def)
next
  case False
  then show ?thesis using merkleTree_structure [of items dg dep] by simp
qed

text \<open>
  Claim C2. \<^verbatim>\<open>merkleProof\<close> does not check the index. For an index outside the item
  sequence it raises nothing and returns a proof object: its leaf is
  \<^verbatim>\<open>undefined\<close>, its root is the root of the tree and its index is the index given.
\<close>

theorem merkleProof_out_of_range:
  assumes "idx < 0 \<or> int (length items) \<le> idx"
  shows "leaf (merkleProof dg items idx dep) = None
     \<and> merkle_proof.root (merkleProof dg items idx dep) = merkle_tree.root (merkleTree dg items dep)
     \<and> index (merkleProof dg items idx dep) = idx"
  using assms by (auto simp: merkleProof_def Let_def merkleTree_leaves js_nth_def)

theorem merkleProof_out_of_range_witness:
  "((3::int) < 0 \<or> int (length [Str ''a'', Str ''b'', Str ''c'']) \<le> 3)
   \<and> leaf (merkleProof sha256_hex [Str ''a'', Str ''b'', Str ''c''] 3 (Fin 1)) = None
   \<and> index (merkleProof sha256_hex [Str ''a'', Str ''b'', Str ''c''] 3 (Fin 1)) = 3"
  using merkleProof_out_of_range [of 3 "[Str ''a'', Str ''b'', Str ''c'']" sha256_hex "Fin 1"]
  by simp

text \<open>
  Three items and the index 3, one past the end, with SHA-256: the object returned
  has no leaf and two steps.
\<close>

theorem merkleProof_out_of_range_counterexample:
  "merkleProof sha256_hex [Str ''a'', Str ''b'', Str ''c''] 3 (Fin 1) =
     \<lparr> merkle_proof.root = ''0bdf27bf7ec894ca7cadfe491ec1a3ece840f117989e8c5e9bd7086467bf6c38'',
       leaf = None,
       proofSteps =
         [\<lparr> proof_step.hash = Some ''2e7d2c03a9507ae265ecf5b5356885a53393a2029d241394997265a1a25aefc6'',
            position = ''left'' \<rparr>,
          \<lparr> proof_step.hash = Some ''62af5c3cb8da3e4f25061e829ebeea5c7513c54949115b1acc225930a90154da'',
            position = ''left'' \<rparr>],
       index = 3 \<rparr>"
  unfolding merkleProof_def sha256_tree by code_simp

subsection \<open>The proof of a leaf at an odd tail\<close>

lemma proofLoop_three_last:
  "proofLoop [[x, y, z], [n0, n1], [r]] 0 2 [] =
     [\<lparr> proof_step.hash = Some n0, position = ''left'' \<rparr>]"
  by (simp add: proofLoop.simps [of _ 0] proofLoop.simps [of _ "Suc 0"]
      proofLoop.simps [of _ "Suc (Suc 0)"] Let_def js_rem_def js_nth_def)

text \<open>
  Claim C1. For three items at depth 1 and the index 2, the last leaf has no
  sibling at level 0 and the tree pairs it with itself, but \<^verbatim>\<open>merkleProof\<close>
  records no step for that level. The proof is the single step of level 1, and
  \<^verbatim>\<open>verifyMerkleProof\<close> compares the digest of that sibling followed by the leaf
  with a root that is the digest of the sibling followed by the digest of the
  doubled leaf: it accepts only if the digest collides on these two inputs.
\<close>

theorem merkleProof_odd_tail:
  assumes hd: "hex_digest dg"
  shows "leaf (merkleProof dg [Str a, Str b, Str c] 2 (Fin 1)) = Some (dg c)
     \<and> proofSteps (merkleProof dg [Str a, Str b, Str c] 2 (Fin 1)) =
         [\<lparr> proof_step.hash = Some (dg (dg a @ dg b)), position = ''left'' \<rparr>]
     \<and> merkle_tree.root (merkleTree dg [Str a, Str b, Str c] (Fin 1)) =
         dg (dg (dg a @ dg b) @ dg (dg c @ dg c))
     \<and> verifyMerkleProof dg (dg c)
          (proofSteps (merkleProof dg [Str a, Str b, Str c] 2 (Fin 1)))
          (merkle_tree.root (merkleTree dg [Str a, Str b, Str c] (Fin 1)))
        = (dg (dg (dg a @ dg b) @ dg c) = dg (dg (dg a @ dg b) @ dg (dg c @ dg c)))"
  by (simp add: merkleProof_def Let_def merkleTree_three [OF hd] proofLoop_three_last
      js_nth_def verifyMerkleProof_def js_str_def sha256_def)

lemma sha256_hex_sibling_leaf:
  "sha256_hex (''62af5c3cb8da3e4f25061e829ebeea5c7513c54949115b1acc225930a90154da'' @
               ''2e7d2c03a9507ae265ecf5b5356885a53393a2029d241394997265a1a25aefc6'') =
     ''d71dc32fa2cd95be60b32dbb3e63009fa8064407ee19f457c92a09a5ff841a8a''"
  by code_simp

theorem merkleProof_odd_tail_witness:
  "hex_digest sha256_hex
   \<and> leaf (merkleProof sha256_hex [Str ''a'', Str ''b'', Str ''c''] 2 (Fin 1)) =
        Some ''2e7d2c03a9507ae265ecf5b5356885a53393a2029d241394997265a1a25aefc6''
   \<and> proofSteps (merkleProof sha256_hex [Str ''a'', Str ''b'', Str ''c''] 2 (Fin 1)) =
        [\<lparr> proof_step.hash = Some ''62af5c3cb8da3e4f25061e829ebeea5c7513c54949115b1acc225930a90154da'',
           position = ''left'' \<rparr>]
   \<and> merkle_tree.root (merkleTree sha256_hex [Str ''a'', Str ''b'', Str ''c''] (Fin 1)) =
        ''0bdf27bf7ec894ca7cadfe491ec1a3ece840f117989e8c5e9bd7086467bf6c38''
   \<and> \<not> verifyMerkleProof sha256_hex
          ''2e7d2c03a9507ae265ecf5b5356885a53393a2029d241394997265a1a25aefc6''
          (proofSteps (merkleProof sha256_hex [Str ''a'', Str ''b'', Str ''c''] 2 (Fin 1)))
          (merkle_tree.root (merkleTree sha256_hex [Str ''a'', Str ''b'', Str ''c''] (Fin 1)))"
proof -
  have neq: "(''d71dc32fa2cd95be60b32dbb3e63009fa8064407ee19f457c92a09a5ff841a8a'' :: string) \<noteq>
        ''0bdf27bf7ec894ca7cadfe491ec1a3ece840f117989e8c5e9bd7086467bf6c38''"
    by simp
  note th = merkleProof_odd_tail [OF hex_digest_sha256_hex, of "''a''" "''b''" "''c''",
      unfolded sha256_hex_a sha256_hex_b sha256_hex_c sha256_hex_ab sha256_hex_cc
        sha256_hex_root sha256_hex_sibling_leaf]
  from th neq hex_digest_sha256_hex show ?thesis by blast
qed

section \<open>Parsing versioned hashes\<close>

lemma first_some_map_Some:
  "first_some (map f ks) = Some x \<Longrightarrow> \<exists>k \<in> set ks. f k = Some x"
proof (induction ks)
  case Nil
  then show ?case by simp
next
  case (Cons k ks)
  then show ?case by (cases "f k") auto
qed

lemma takeWhile_run:
  assumes "list_all P v" and "rest = [] \<or> \<not> P (hd rest)"
  shows "takeWhile P (v @ rest) = v"
proof -
  have "takeWhile P rest = []" using assms(2) by (cases rest) auto
  moreover have "takeWhile P (v @ rest) = v @ takeWhile P rest"
    using assms(1) by (simp add: takeWhile_append2 list_all_iff)
  ultimately show ?thesis by simp
qed

lemma rx_match_CapPlus_greedy:
  assumes v: "v \<noteq> []" "list_all P v"
    and rest: "rest = [] \<or> \<not> P (hd rest)"
    and r: "rx_match r rest = Some caps"
  shows "rx_match (CapPlus P # r) (v @ rest) = Some (v # caps)"
proof -
  define s where "s = v @ rest"
  define f where "f = (\<lambda>k. map_option ((#) (take k s)) (rx_match r (drop k s)))"
  obtain m where m: "length v = Suc m" using v by (cases v) auto
  have tw: "length (takeWhile P s) = Suc m"
    unfolding s_def using takeWhile_run [OF v(2) rest] m by simp
  have ks: "rev [1 ..< Suc (Suc m)] = Suc m # rev [1 ..< Suc m]"
    by simp
  have fm: "f (Suc m) = Some (v # caps)"
    using r m by (simp add: f_def s_def)
  have "rx_match (CapPlus P # r) s = first_some (map f (rev [1 ..< Suc (Suc m)]))"
    by (simp only: rx_match.simps tw f_def)
  also have "\<dots> = Some (v # caps)"
    unfolding ks by (simp add: fm)
  finally show ?thesis by (simp only: s_def)
qed

lemma rx_match_CapPlus_sound:
  assumes "rx_match (CapPlus P # r) s = Some caps"
  shows "\<exists>k caps'. 1 \<le> k \<and> k \<le> length (takeWhile P s)
           \<and> caps = take k s # caps' \<and> rx_match r (drop k s) = Some caps'"
proof -
  from assms obtain k where k: "k \<in> set (rev [1 ..< Suc (length (takeWhile P s))])"
    and f: "map_option ((#) (take k s)) (rx_match r (drop k s)) = Some caps"
    using first_some_map_Some
      [of "\<lambda>k. map_option ((#) (take k s)) (rx_match r (drop k s))"
          "rev [1 ..< Suc (length (takeWhile P s))]" caps]
    by (auto simp del: upt_Suc)
  from f obtain caps' where "rx_match r (drop k s) = Some caps'" "caps = take k s # caps'"
    by (cases "rx_match r (drop k s)") auto
  with k show ?thesis by auto
qed

lemma take_takeWhile_all:
  assumes "k \<le> length (takeWhile P s)"
  shows "list_all P (take k s)"
proof -
  have "take k s = take k (takeWhile P s)"
    using assms by (metis append_eq_conv_conj takeWhile_dropWhile_id take_append min.absorb2 take_take length_take)
  moreover have "list_all P (takeWhile P s)"
    by (simp add: list_all_iff) (meson set_takeWhileD)
  ultimately show ?thesis
    by (metis list_all_iff in_set_takeD)
qed

lemma rx_match_CapPlus_elim:
  assumes "rx_match (CapPlus P # r) s = Some caps"
  obtains v rest caps' where "s = v @ rest" "v \<noteq> []" "list_all P v"
    "caps = v # caps'" "rx_match r rest = Some caps'"
proof -
  from rx_match_CapPlus_sound [OF assms] obtain k caps' where
    k: "1 \<le> k" "k \<le> length (takeWhile P s)" and c: "caps = take k s # caps'"
    and r: "rx_match r (drop k s) = Some caps'"
    by blast
  have "length (takeWhile P s) \<le> length s" by (rule length_takeWhile_le)
  with k have "take k s \<noteq> []" by (cases s) auto
  moreover have "s = take k s @ drop k s" by simp
  moreover have "list_all P (take k s)" using k(2) by (rule take_takeWhile_all)
  ultimately show ?thesis using c r that by blast
qed

lemma rx_match_Lit_elim:
  assumes "rx_match (Lit l # r) s = Some caps"
  obtains rest where "s = l @ rest" "rx_match r rest = Some caps"
proof -
  from assms have t: "take (length l) s = l" and r: "rx_match r (drop (length l) s) = Some caps"
    by (auto split: if_splits)
  have "s = take (length l) s @ drop (length l) s" by simp
  with t have "s = l @ drop (length l) s" by simp
  with r that show ?thesis by blast
qed

lemma rx_match_Lit_append:
  "rx_match (Lit l # r) (l @ rest) = rx_match r rest"
  by simp

lemma not_digit_dash: "\<not> is_digit CHR ''-''" "\<not> (is_digit CHR ''-'' \<or> CHR ''-'' = CHR ''.'')"
  by (simp_all add: is_digit_def)

lemma grammar_rx_match:
  assumes "versioned_grammar s v d h"
  shows "rx_match versioned_rx s = Some [v, d, h]"
proof -
  from assms have s: "s = ''sha-inf-v'' @ v @ ''-d'' @ d @ ''-'' @ h"
    and v: "v \<noteq> []" "list_all (\<lambda>c. is_digit c \<or> c = CHR ''.'') v"
    and d: "d \<noteq> []" "list_all is_digit d"
    and h: "h \<noteq> []" "list_all is_hex h"
    by (simp_all add: versioned_grammar_def)
  have m3: "rx_match [CapPlus is_hex] (h @ []) = Some [h]"
    by (rule rx_match_CapPlus_greedy [OF h]) simp_all
  have m2: "rx_match [Lit ''-'', CapPlus is_hex] (''-'' @ h) = Some [h]"
    using m3 by (simp only: rx_match_Lit_append append_Nil2)
  have m1: "rx_match [CapPlus is_digit, Lit ''-'', CapPlus is_hex] (d @ ''-'' @ h) = Some [d, h]"
    by (rule rx_match_CapPlus_greedy [OF d _ m2]) (simp add: not_digit_dash)
  have m0: "rx_match [Lit ''-d'', CapPlus is_digit, Lit ''-'', CapPlus is_hex]
      (''-d'' @ d @ ''-'' @ h) = Some [d, h]"
    using m1 by (simp only: rx_match_Lit_append)
  have mv: "rx_match [CapPlus (\<lambda>c. is_digit c \<or> c = CHR ''.''), Lit ''-d'', CapPlus is_digit,
      Lit ''-'', CapPlus is_hex] (v @ ''-d'' @ d @ ''-'' @ h) = Some [v, d, h]"
    by (rule rx_match_CapPlus_greedy [OF v _ m0]) (simp add: not_digit_dash)
  show ?thesis
    unfolding versioned_rx_def s using mv by (simp only: rx_match_Lit_append)
qed

lemma rx_match_grammar:
  assumes "rx_match versioned_rx s = Some caps"
  shows "\<exists>v d h. versioned_grammar s v d h \<and> caps = [v, d, h]"
proof -
  from assms obtain s1 where s1: "s = ''sha-inf-v'' @ s1"
    and r1: "rx_match [CapPlus (\<lambda>c. is_digit c \<or> c = CHR ''.''), Lit ''-d'', CapPlus is_digit,
      Lit ''-'', CapPlus is_hex] s1 = Some caps"
    unfolding versioned_rx_def by (rule rx_match_Lit_elim)
  from r1 obtain v s2 c1 where v: "s1 = v @ s2" "v \<noteq> []"
      "list_all (\<lambda>c. is_digit c \<or> c = CHR ''.'') v" "caps = v # c1"
    and r2: "rx_match [Lit ''-d'', CapPlus is_digit, Lit ''-'', CapPlus is_hex] s2 = Some c1"
    by (rule rx_match_CapPlus_elim)
  from r2 obtain s3 where s3: "s2 = ''-d'' @ s3"
    and r3: "rx_match [CapPlus is_digit, Lit ''-'', CapPlus is_hex] s3 = Some c1"
    by (rule rx_match_Lit_elim)
  from r3 obtain d s4 c2 where d: "s3 = d @ s4" "d \<noteq> []" "list_all is_digit d" "c1 = d # c2"
    and r4: "rx_match [Lit ''-'', CapPlus is_hex] s4 = Some c2"
    by (rule rx_match_CapPlus_elim)
  from r4 obtain s5 where s5: "s4 = ''-'' @ s5"
    and r5: "rx_match [CapPlus is_hex] s5 = Some c2"
    by (rule rx_match_Lit_elim)
  from r5 obtain h s6 c3 where h: "s5 = h @ s6" "h \<noteq> []" "list_all is_hex h" "c2 = h # c3"
    and r6: "rx_match [] s6 = Some c3"
    by (rule rx_match_CapPlus_elim)
  from r6 have e: "s6 = []" "c3 = []" by (auto split: if_splits)
  have "versioned_grammar s v d h"
    unfolding versioned_grammar_def using s1 v s3 d s5 h e by simp
  moreover have "caps = [v, d, h]" using v d h e by simp
  ultimately show ?thesis by blast
qed

lemma parseVersionedHash_grammar:
  assumes "versioned_grammar s v d h"
  shows "parseVersionedHash s = Inr \<lparr> version = v, depth = parseInt10 d, hash = h \<rparr>"
  using grammar_rx_match [OF assms] by (simp add: parseVersionedHash_def js_match_def)

lemma parseVersionedHash_Inr:
  assumes "parseVersionedHash s = Inr r"
  shows "\<exists>v d h. versioned_grammar s v d h \<and> r = \<lparr> version = v, depth = parseInt10 d, hash = h \<rparr>"
proof -
  from assms obtain caps where c: "rx_match versioned_rx s = Some caps"
    by (cases "rx_match versioned_rx s") (auto simp: parseVersionedHash_def js_match_def)
  from rx_match_grammar [OF c] obtain v d h where g: "versioned_grammar s v d h" by blast
  from parseVersionedHash_grammar [OF g] assms g show ?thesis by auto
qed

lemma parseVersionedHash_cases:
  "parseVersionedHash s = Inl (Error ''Invalid versioned hash format'') \<or> (\<exists>r. parseVersionedHash s = Inr r)"
  by (cases "js_match versioned_rx s") (simp_all add: parseVersionedHash_def)

lemma run_unique:
  assumes eq: "v @ x # r = v' @ x # r'"
    and v: "list_all P v" and v': "list_all P v'" and x: "\<not> P x"
  shows "v = v' \<and> r = r'"
proof -
  have "takeWhile P (v @ x # r) = v" using v x by (intro takeWhile_run) simp_all
  moreover have "takeWhile P (v' @ x # r') = v'" using v' x by (intro takeWhile_run) simp_all
  ultimately have "v = v'" using eq by simp
  with eq show ?thesis by simp
qed

lemma versioned_grammar_unique:
  assumes g: "versioned_grammar (''sha-inf-v'' @ v @ ''-d'' @ d @ ''-'' @ h) v' d' h'"
    and v: "list_all (\<lambda>c. is_digit c \<or> c = CHR ''.'') v" and d: "list_all is_digit d"
  shows "v' = v \<and> d' = d \<and> h' = h"
proof -
  from g have eq: "v @ CHR ''-'' # (CHR ''d'' # d @ ''-'' @ h) = v' @ CHR ''-'' # (CHR ''d'' # d' @ ''-'' @ h')"
    and v': "list_all (\<lambda>c. is_digit c \<or> c = CHR ''.'') v'" and d': "list_all is_digit d'"
    by (simp_all add: versioned_grammar_def)
  from run_unique [OF eq v v'] have 1: "v = v'" and eq2: "d @ CHR ''-'' # h = d' @ CHR ''-'' # h'"
    by (simp_all add: not_digit_dash)
  from run_unique [OF eq2 d d'] have "d = d'" "h = h'"
    by (simp_all add: not_digit_dash)
  with 1 show ?thesis by simp
qed

lemma parseVersionedHash_digest_segment:
  assumes v: "v \<noteq> []" "list_all (\<lambda>c. is_digit c \<or> c = CHR ''.'') v"
    and d: "d \<noteq> []" "list_all is_digit d"
  shows "parseVersionedHash (''sha-inf-v'' @ v @ ''-d'' @ d @ ''-'' @ h) =
     (if h \<noteq> [] \<and> list_all is_hex h
      then Inr \<lparr> version = v, depth = parseInt10 d, hash = h \<rparr>
      else Inl (Error ''Invalid versioned hash format''))"
proof (cases "h \<noteq> [] \<and> list_all is_hex h")
  case True
  with v d have "versioned_grammar (''sha-inf-v'' @ v @ ''-d'' @ d @ ''-'' @ h) v d h"
    by (simp add: versioned_grammar_def)
  from parseVersionedHash_grammar [OF this] True show ?thesis by simp
next
  case False
  have "parseVersionedHash (''sha-inf-v'' @ v @ ''-d'' @ d @ ''-'' @ h) \<noteq> Inr r" for r
  proof
    assume "parseVersionedHash (''sha-inf-v'' @ v @ ''-d'' @ d @ ''-'' @ h) = Inr r"
    from parseVersionedHash_Inr [OF this] obtain v' d' h' where
      g: "versioned_grammar (''sha-inf-v'' @ v @ ''-d'' @ d @ ''-'' @ h) v' d' h'" by blast
    from versioned_grammar_unique [OF g v(2) d(2)] have "h' = h" by simp
    with g have "h \<noteq> [] \<and> list_all is_hex h" by (simp add: versioned_grammar_def)
    with False show False by simp
  qed
  with parseVersionedHash_cases [of "''sha-inf-v'' @ v @ ''-d'' @ d @ ''-'' @ h"] False
  show ?thesis by auto
qed

text \<open>The depth of a long run of digits is rounded, and is \<^verbatim>\<open>Infinity\<close> for a very long one.\<close>

lemma parseInt10_rounds:
  "parseInt10 ''9007199254740993'' = Fin 9007199254740992"
  by code_simp

lemma parseInt10_overflow:
  "parseInt10 (replicate 400 (CHR ''9'')) = Infinity"
  by code_simp

text \<open>
  Claim C3. \<^verbatim>\<open>parseVersionedHash\<close> returns a result exactly on the strings of the
  grammar of its pattern, with the captured version and digest and with the depth
  that \<^verbatim>\<open>parseInt\<close> gives for the captured digits (a double: exact below \<open>2\<^sup>5\<^sup>3\<close>,
  rounded above), and raises
  \<^verbatim>\<open>Invalid versioned hash format\<close> on every other string. After a well-formed
  version and depth segment, the digest segment is accepted exactly when it is a
  non-empty run of the characters \<^verbatim>\<open>a-f0-9\<close>: an empty segment or one with
  another character is rejected, and its length is not checked.
\<close>

theorem parseVersionedHash_accepts:
  "(parseVersionedHash s = Inr r) =
     (\<exists>v d h. versioned_grammar s v d h \<and> r = \<lparr> version = v, depth = parseInt10 d, hash = h \<rparr>)
   \<and> ((\<forall>v d h. \<not> versioned_grammar s v d h) \<longrightarrow>
        parseVersionedHash s = Inl (Error ''Invalid versioned hash format''))
   \<and> (v \<noteq> [] \<and> list_all (\<lambda>c. is_digit c \<or> c = CHR ''.'') v \<and> d \<noteq> [] \<and> list_all is_digit d \<longrightarrow>
        parseVersionedHash (''sha-inf-v'' @ v @ ''-d'' @ d @ ''-'' @ h) =
          (if h \<noteq> [] \<and> list_all is_hex h
           then Inr \<lparr> version = v, depth = parseInt10 d, hash = h \<rparr>
           else Inl (Error ''Invalid versioned hash format'')))"
proof (intro conjI impI)
  show "(parseVersionedHash s = Inr r) =
     (\<exists>v d h. versioned_grammar s v d h \<and> r = \<lparr> version = v, depth = parseInt10 d, hash = h \<rparr>)"
    using parseVersionedHash_Inr [of s r] parseVersionedHash_grammar [of s] by auto
next
  assume "\<forall>v d h. \<not> versioned_grammar s v d h"
  then have "parseVersionedHash s \<noteq> Inr r" for r
    using parseVersionedHash_Inr [of s r] by blast
  with parseVersionedHash_cases [of s]
  show "parseVersionedHash s = Inl (Error ''Invalid versioned hash format'')" by auto
next
  assume "v \<noteq> [] \<and> list_all (\<lambda>c. is_digit c \<or> c = CHR ''.'') v \<and> d \<noteq> [] \<and> list_all is_digit d"
  then show "parseVersionedHash (''sha-inf-v'' @ v @ ''-d'' @ d @ ''-'' @ h) =
          (if h \<noteq> [] \<and> list_all is_hex h
           then Inr \<lparr> version = v, depth = parseInt10 d, hash = h \<rparr>
           else Inl (Error ''Invalid versioned hash format''))"
    using parseVersionedHash_digest_segment [of v d h] by simp
qed

theorem parseVersionedHash_accepts_witness:
  "(''1..'' \<noteq> [] \<and> list_all (\<lambda>c. is_digit c \<or> c = CHR ''.'') ''1..'' \<and> ''0'' \<noteq> [] \<and> list_all is_digit ''0'')
   \<and> parseVersionedHash ''sha-inf-v1..-d0-ab'' = Inr \<lparr> version = ''1..'', depth = Fin 0, hash = ''ab'' \<rparr>
   \<and> parseVersionedHash ''sha-inf-v1..-d0-aG'' = Inl (Error ''Invalid versioned hash format'')
   \<and> parseVersionedHash ''sha-inf-v1..-d0-'' = Inl (Error ''Invalid versioned hash format'')
   \<and> parseVersionedHash ''sha-inf'' = Inl (Error ''Invalid versioned hash format'')
   \<and> parseVersionedHash ''sha-inf-v1..-d9007199254740993-ab'' =
        Inr \<lparr> version = ''1..'', depth = Fin 9007199254740992, hash = ''ab'' \<rparr>"
proof -
  have p: "''1..'' \<noteq> [] \<and> list_all (\<lambda>c. is_digit c \<or> c = CHR ''.'') ''1..'' \<and> ''0'' \<noteq> [] \<and> list_all is_digit ''0''"
    by (simp add: is_digit_def)
  have n: "\<forall>v d h. \<not> versioned_grammar ''sha-inf'' v d h"
    by (simp add: versioned_grammar_def)
  have a: "parseVersionedHash (''sha-inf-v'' @ ''1..'' @ ''-d'' @ ''0'' @ ''-'' @ ''ab'') =
      Inr \<lparr> version = ''1..'', depth = Fin 0, hash = ''ab'' \<rparr>"
    using parseVersionedHash_accepts [of _ _ "''1..''" "''0''" "''ab''"] p
    by (simp add: is_hex_def parseInt10_def decimal_value_def round_double_def)
  have b: "parseVersionedHash (''sha-inf-v'' @ ''1..'' @ ''-d'' @ ''0'' @ ''-'' @ ''aG'') =
      Inl (Error ''Invalid versioned hash format'')"
    using parseVersionedHash_accepts [of _ _ "''1..''" "''0''" "''aG''"] p
    by (simp add: is_hex_def)
  have c: "parseVersionedHash (''sha-inf-v'' @ ''1..'' @ ''-d'' @ ''0'' @ ''-'' @ []) =
      Inl (Error ''Invalid versioned hash format'')"
    using parseVersionedHash_accepts [of _ _ "''1..''" "''0''" "[]"] p
    by simp
  have e: "parseVersionedHash ''sha-inf'' = Inl (Error ''Invalid versioned hash format'')"
    using parseVersionedHash_accepts [of "''sha-inf''"] n by blast
  have q: "''1..'' \<noteq> [] \<and> list_all (\<lambda>c. is_digit c \<or> c = CHR ''.'') ''1..''
      \<and> ''9007199254740993'' \<noteq> [] \<and> list_all is_digit ''9007199254740993''"
    by (simp add: is_digit_def)
  have f: "parseVersionedHash
      (''sha-inf-v'' @ ''1..'' @ ''-d'' @ ''9007199254740993'' @ ''-'' @ ''ab'') =
      Inr \<lparr> version = ''1..'', depth = Fin 9007199254740992, hash = ''ab'' \<rparr>"
    using parseVersionedHash_accepts [of _ _ "''1..''" "''9007199254740993''" "''ab''"] q
    by (simp add: is_hex_def parseInt10_rounds)
  from p a b c e f show ?thesis by simp
qed

text \<open>A digest segment of three characters is parsed, not rejected.\<close>

theorem parseVersionedHash_counterexample:
  "parseVersionedHash ''sha-inf-v1.0.0-d1-abc'' =
     Inr \<lparr> version = ''1.0.0'', depth = Fin 1, hash = ''abc'' \<rparr>"
  by code_simp

subsection \<open>Formatting, then parsing\<close>

lemma digit_char_cases:
  obtains "n mod 10 = 0" | "n mod 10 = 1" | "n mod 10 = 2" | "n mod 10 = 3" | "n mod 10 = 4"
    | "n mod 10 = 5" | "n mod 10 = 6" | "n mod 10 = 7" | "n mod 10 = 8" | "n mod 10 = (9::nat)"
  by atomize_elim arith

lemma is_digit_digit_char: "is_digit (digit_char n)"
  by (rule digit_char_cases [of n]) (simp_all add: digit_char_def is_digit_def)

lemma of_char_digit_char: "int (of_char (digit_char n)) - 48 = int (n mod 10)"
  by (rule digit_char_cases [of n]) (simp_all add: digit_char_def)

lemma show_nat_digits: "show_nat n \<noteq> [] \<and> list_all is_digit (show_nat n)"
proof (induction n rule: show_nat.induct)
  case (1 n)
  show ?case
  proof (cases "n < 10")
    case True
    then show ?thesis by (subst (1 2) show_nat.simps) (simp add: is_digit_digit_char)
  next
    case False
    with "1.IH" show ?thesis by (subst (1 2) show_nat.simps) (simp add: is_digit_digit_char)
  qed
qed

lemma decimal_value_snoc: "decimal_value (s @ [c]) = decimal_value s * 10 + (int (of_char c) - 48)"
  by (simp add: decimal_value_def)

lemma decimal_value_show_nat: "decimal_value (show_nat n) = int n"
proof (induction n rule: show_nat.induct)
  case (1 n)
  show ?case
  proof (cases "n < 10")
    case True
    then have "decimal_value (show_nat n) = int (n mod 10)"
      by (subst show_nat.simps) (simp add: decimal_value_def of_char_digit_char)
    with True show ?thesis by simp
  next
    case False
    then have "decimal_value (show_nat n) = decimal_value (show_nat (n div 10)) * 10 + int (n mod 10)"
      by (subst show_nat.simps) (simp add: decimal_value_snoc of_char_digit_char)
    also have "\<dots> = int (n div 10) * 10 + int (n mod 10)"
      using False "1.IH" by simp
    also have "\<dots> = int n"
      by (metis mult.commute of_nat_add of_nat_mult of_nat_numeral div_mult_mod_eq)
    finally show ?thesis .
  qed
qed

lemma parseInt10_exact: "decimal_value s < 2 ^ 53 \<Longrightarrow> parseInt10 s = Fin (decimal_value s)"
  by (simp add: parseInt10_def round_double_def)

lemma parseInt10_show_nat: "int n < 2 ^ 53 \<Longrightarrow> parseInt10 (show_nat n) = Fin (int n)"
  by (simp add: parseInt10_exact decimal_value_show_nat)

lemma is_hex_hexchars: "is_hex c = (c \<in> hexchars)"
  by (auto simp: is_hex_def hexchars_def)

lemma shaInfinity_hex:
  assumes "hex_digest dg"
  shows "shaInfinity dg x dep \<noteq> [] \<and> list_all is_hex (shaInfinity dg x dep)"
proof -
  obtain bs where bs: "shaInfinity dg x dep = dg bs" using shaInfinity_is_digest by blast
  from assms have "length (dg bs) = 64" "set (dg bs) \<subseteq> hexchars"
    by (simp_all add: hex_digest_def)
  then show ?thesis
    unfolding bs by (auto simp: list_all_iff is_hex_hexchars)
qed

text \<open>
  Claim C6. For a depth \<open>d\<close> from 1 to \<open>maxDepth\<close>, parsing the versioned hash of an
  input gives back the current version, the depth \<open>d\<close> and the iterated hash of the
  input at depth \<open>d\<close>.
\<close>

theorem versionedHash_roundtrip:
  assumes hd: "hex_digest dg" and lo: "1 \<le> d" and hi: "d \<le> maxDepth SHA_INFINITY_CONFIG"
  shows "parseVersionedHash (versionedHash dg x (Fin d)) =
     Inr \<lparr> version = config.version SHA_INFINITY_CONFIG, depth = Fin d,
           hash = shaInfinity dg x (Fin d) \<rparr>"
proof -
  define ds where "ds = show_nat (nat d)"
  define h where "h = shaInfinity dg x (Fin d)"
  have vh: "versionedHash dg x (Fin d) = ''sha-inf-v'' @ ''1.0.0'' @ ''-d'' @ ds @ ''-'' @ h"
    using lo by (simp add: versionedHash_def number_string_def SHA_INFINITY_CONFIG_def Let_def
        ds_def h_def)
  have "versioned_grammar (''sha-inf-v'' @ ''1.0.0'' @ ''-d'' @ ds @ ''-'' @ h) ''1.0.0'' ds h"
    unfolding versioned_grammar_def
    using show_nat_digits [of "nat d"] shaInfinity_hex [OF hd, of x "Fin d"]
    by (simp add: ds_def h_def is_digit_def)
  from parseVersionedHash_grammar [OF this] have
    "parseVersionedHash (versionedHash dg x (Fin d)) =
       Inr \<lparr> version = ''1.0.0'', depth = parseInt10 ds, hash = h \<rparr>"
    by (simp only: vh)
  moreover have "parseInt10 ds = Fin d"
    using lo hi by (simp add: ds_def parseInt10_show_nat SHA_INFINITY_CONFIG_def)
  ultimately show ?thesis
    by (simp add: SHA_INFINITY_CONFIG_def h_def)
qed

theorem versionedHash_roundtrip_witness:
  "hex_digest sha256_hex \<and> (1::int) \<le> 5 \<and> 5 \<le> maxDepth SHA_INFINITY_CONFIG
   \<and> parseVersionedHash (versionedHash sha256_hex (Str ''data'') (Fin 5)) =
       Inr \<lparr> version = ''1.0.0'', depth = Fin 5,
             hash = shaInfinity sha256_hex (Str ''data'') (Fin 5) \<rparr>"
  using versionedHash_roundtrip [OF hex_digest_sha256_hex, of 5 "Str ''data''"] hex_digest_sha256_hex
  by (simp add: SHA_INFINITY_CONFIG_def)

section \<open>Hash chains\<close>

lemma chainLoop_acc:
  "chainLoop dg cur items ch =
     (fst (chainLoop dg cur items []), ch @ snd (chainLoop dg cur items []))"
proof (induction items arbitrary: cur ch)
  case Nil
  show ?case by simp
next
  case (Cons it rest)
  define cur' where "cur' = sha256 dg (Str (cur @ sha256 dg it))"
  define l where "l = \<lparr> item = it, itemHash = sha256 dg it, chainHash = cur' \<rparr>"
  define X where "X = chainLoop dg cur' rest []"
  have a: "chainLoop dg cur (it # rest) ch = chainLoop dg cur' rest (ch @ [l])" for ch
    by (simp add: Let_def cur'_def l_def)
  have b: "chainLoop dg cur' rest (ch @ [l]) = (fst X, (ch @ [l]) @ snd X)" for ch
    unfolding X_def by (rule Cons.IH)
  show ?case
    unfolding a b [of ch] using b [of "[]"] by simp
qed

lemma chainLoop_Cons:
  "chainLoop dg cur (it # rest) [] =
     (let ih = sha256 dg it; cur' = sha256 dg (Str (cur @ ih))
      in (fst (chainLoop dg cur' rest []),
          \<lparr> item = it, itemHash = ih, chainHash = cur' \<rparr> # snd (chainLoop dg cur' rest [])))"
proof -
  define cur' where "cur' = sha256 dg (Str (cur @ sha256 dg it))"
  define l where "l = \<lparr> item = it, itemHash = sha256 dg it, chainHash = cur' \<rparr>"
  have "chainLoop dg cur (it # rest) [] = chainLoop dg cur' rest [l]"
    by (simp add: Let_def cur'_def l_def)
  also have "\<dots> = (fst (chainLoop dg cur' rest []), [l] @ snd (chainLoop dg cur' rest []))"
    by (rule chainLoop_acc)
  finally show ?thesis
    by (simp add: Let_def cur'_def l_def)
qed

lemma chainLoop_links:
  "length (snd (chainLoop dg cur items [])) = length items
   \<and> (\<forall>i < length items.
        item (snd (chainLoop dg cur items []) ! i) = items ! i
        \<and> itemHash (snd (chainLoop dg cur items []) ! i) = sha256 dg (items ! i)
        \<and> chainHash (snd (chainLoop dg cur items []) ! i) =
            sha256 dg (Str ((if i = 0 then cur
                             else chainHash (snd (chainLoop dg cur items []) ! (i - 1)))
                            @ sha256 dg (items ! i))))
   \<and> fst (chainLoop dg cur items []) =
       (if items = [] then cur else chainHash (last (snd (chainLoop dg cur items []))))"
proof (induction items arbitrary: cur)
  case Nil
  show ?case by simp
next
  case (Cons it rest)
  define cur' where "cur' = sha256 dg (Str (cur @ sha256 dg it))"
  define l where "l = \<lparr> item = it, itemHash = sha256 dg it, chainHash = cur' \<rparr>"
  define ls where "ls = snd (chainLoop dg cur' rest [])"
  have eq: "chainLoop dg cur (it # rest) [] = (fst (chainLoop dg cur' rest []), l # ls)"
    by (subst chainLoop_Cons) (simp add: Let_def cur'_def l_def ls_def)
  note IH = Cons.IH [of cur', folded ls_def]
  have len: "length ls = length rest" using IH by simp
  have fin: "fst (chainLoop dg cur' rest []) = (if rest = [] then cur' else chainHash (last ls))"
    using IH by simp
  have nth: "item (ls ! i) = rest ! i \<and> itemHash (ls ! i) = sha256 dg (rest ! i)
      \<and> chainHash (ls ! i) =
          sha256 dg (Str ((if i = 0 then cur' else chainHash (ls ! (i - 1))) @ sha256 dg (rest ! i)))"
    if "i < length rest" for i
    using IH that by blast
  have step: "item ((l # ls) ! i) = (it # rest) ! i
      \<and> itemHash ((l # ls) ! i) = sha256 dg ((it # rest) ! i)
      \<and> chainHash ((l # ls) ! i) =
          sha256 dg (Str ((if i = 0 then cur else chainHash ((l # ls) ! (i - 1)))
                          @ sha256 dg ((it # rest) ! i)))"
    if "i < length (it # rest)" for i
  proof (cases i)
    case 0
    then show ?thesis by (simp add: l_def cur'_def)
  next
    case (Suc j)
    with that have j: "j < length rest" by simp
    show ?thesis
    proof (cases j)
      case 0
      with nth [OF j] Suc show ?thesis by (simp add: l_def)
    next
      case (Suc k)
      with nth [OF j] \<open>i = Suc j\<close> show ?thesis by simp
    qed
  qed
  have last: "fst (chainLoop dg cur' rest []) = chainHash (last (l # ls))"
  proof (cases "rest = []")
    case True
    with len fin show ?thesis by (simp add: l_def)
  next
    case False
    with len have "ls \<noteq> []" by auto
    with fin False show ?thesis by simp
  qed
  show ?case
    unfolding eq using len step last by simp
qed

text \<open>
  Claim C9. With no previous digest the chain starts from the digest of
  \<^verbatim>\<open>"genesis"\<close>; every link holds the digest of its item and the digest of the
  previous chain digest followed by the item digest, and the final hash is the
  chain digest of the last link. For the items \<^verbatim>\<open>["e1", "e2"]\<close> that is exactly two
  links with the stated digests.
\<close>

theorem hashChain_links:
  "length (chain (hashChain dg items None)) = length items
   \<and> chain_length (hashChain dg items None) = length items
   \<and> (\<forall>i < length items.
        item (chain (hashChain dg items None) ! i) = items ! i
        \<and> itemHash (chain (hashChain dg items None) ! i) = sha256 dg (items ! i)
        \<and> chainHash (chain (hashChain dg items None) ! i) =
            sha256 dg (Str ((if i = 0 then sha256 dg (Str ''genesis'')
                             else chainHash (chain (hashChain dg items None) ! (i - 1)))
                            @ sha256 dg (items ! i))))
   \<and> finalHash (hashChain dg items None) =
       (if items = [] then sha256 dg (Str ''genesis'')
        else chainHash (last (chain (hashChain dg items None))))
   \<and> hashChain dg [Str ''e1'', Str ''e2''] None =
       \<lparr> previousHash = None,
         chain =
           [\<lparr> item = Str ''e1'', itemHash = sha256 dg (Str ''e1''),
              chainHash = sha256 dg (Str (sha256 dg (Str ''genesis'') @ sha256 dg (Str ''e1''))) \<rparr>,
            \<lparr> item = Str ''e2'', itemHash = sha256 dg (Str ''e2''),
              chainHash =
                sha256 dg (Str (sha256 dg (Str (sha256 dg (Str ''genesis'') @ sha256 dg (Str ''e1'')))
                                @ sha256 dg (Str ''e2''))) \<rparr>],
         finalHash =
           sha256 dg (Str (sha256 dg (Str (sha256 dg (Str ''genesis'') @ sha256 dg (Str ''e1'')))
                           @ sha256 dg (Str ''e2''))),
         chain_length = 2 \<rparr>"
proof -
  define g where "g = sha256 dg (Str ''genesis'')"
  have h: "hashChain dg items None =
      \<lparr> previousHash = None, chain = snd (chainLoop dg g items []),
        finalHash = fst (chainLoop dg g items []),
        chain_length = length (snd (chainLoop dg g items [])) \<rparr>" for items
    by (simp add: hashChain_def js_or_def g_def split_beta)
  have conc: "hashChain dg [Str ''e1'', Str ''e2''] None =
       \<lparr> previousHash = None,
         chain =
           [\<lparr> item = Str ''e1'', itemHash = sha256 dg (Str ''e1''),
              chainHash = sha256 dg (Str (g @ sha256 dg (Str ''e1''))) \<rparr>,
            \<lparr> item = Str ''e2'', itemHash = sha256 dg (Str ''e2''),
              chainHash =
                sha256 dg (Str (sha256 dg (Str (g @ sha256 dg (Str ''e1'')))
                                @ sha256 dg (Str ''e2''))) \<rparr>],
         finalHash =
           sha256 dg (Str (sha256 dg (Str (g @ sha256 dg (Str ''e1'')))
                           @ sha256 dg (Str ''e2''))),
         chain_length = 2 \<rparr>"
    by (simp add: h Let_def)
  show ?thesis
    using chainLoop_links [of dg g items] conc
    unfolding h g_def by simp
qed

theorem hashChain_links_witness:
  "(1::nat) < length [Str ''e1'', Str ''e2'']
   \<and> length (chain (hashChain sha256_hex [Str ''e1'', Str ''e2''] None)) = 2
   \<and> chainHash (chain (hashChain sha256_hex [Str ''e1'', Str ''e2''] None) ! 1) =
        sha256 sha256_hex
          (Str (chainHash (chain (hashChain sha256_hex [Str ''e1'', Str ''e2''] None) ! 0)
                @ sha256 sha256_hex (Str ''e2'')))"
proof -
  have all: "\<forall>i < length [Str ''e1'', Str ''e2''].
      chainHash (chain (hashChain sha256_hex [Str ''e1'', Str ''e2''] None) ! i) =
        sha256 sha256_hex
          (Str ((if i = 0 then sha256 sha256_hex (Str ''genesis'')
                 else chainHash (chain (hashChain sha256_hex [Str ''e1'', Str ''e2''] None) ! (i - 1)))
                @ sha256 sha256_hex ([Str ''e1'', Str ''e2''] ! i)))"
    and len: "length (chain (hashChain sha256_hex [Str ''e1'', Str ''e2''] None)) =
      length [Str ''e1'', Str ''e2'']"
    using hashChain_links [of sha256_hex "[Str ''e1'', Str ''e2'']"] by blast+
  from all have "(1::nat) < length [Str ''e1'', Str ''e2''] \<longrightarrow>
      chainHash (chain (hashChain sha256_hex [Str ''e1'', Str ''e2''] None) ! 1) =
        sha256 sha256_hex
          (Str ((if (1::nat) = 0 then sha256 sha256_hex (Str ''genesis'')
                 else chainHash (chain (hashChain sha256_hex [Str ''e1'', Str ''e2''] None) ! (1 - 1)))
                @ sha256 sha256_hex ([Str ''e1'', Str ''e2''] ! 1)))"
    by (rule spec)
  with len show ?thesis by simp
qed

section \<open>Verification of a proof\<close>

text \<open>
  Claim C10. With an empty list of steps, \<^verbatim>\<open>verifyMerkleProof\<close> accepts exactly when
  the leaf is the root; in particular every root is accepted as its own leaf.
\<close>

theorem verify_empty_proof:
  "verifyMerkleProof dg lf [] rt = (lf = rt) \<and> verifyMerkleProof dg rt [] rt"
  by (simp add: verifyMerkleProof_def)


end
